theory Spec2Isabelle
  imports Complex_Main
begin

section \<open>The living tree: numbers, configuration and data model\<close>

text \<open>
  The program is \<^verbatim>\<open>src/living_tree_showcase.js\<close>. Its numbers are JavaScript numbers;
  they are modelled here as mathematical reals (\<open>Math.sin\<close> is \<^const>\<open>sin\<close>,
  \<open>Math.floor\<close> is \<^const>\<open>floor\<close>), so rounding of IEEE doubles is not part of the model.
  Counters that only ever hold whole numbers (\<open>depth\<close>, \<open>id\<close>) are naturals,
  \<open>fruitsRipened\<close> is an integer.

  \<open>Math.random()\<close> is a stream of reals that the program consumes from the front; the
  properties below hold for every stream, and where a range matters the stream's values
  are assumed to lie in \<open>[0, 1)\<close>. Canvas drawing, the HUD and the decorative layers
  (sky, stars, mountains, clouds, fireflies, birds, sawdust, pointer trail) do not
  write any variable modelled here. The values they take from \<open>Math.random()\<close> are not consumed in the
  model, which only renames the positions of the stream.
\<close>

subsection \<open>CONFIG\<close>

definition maxDepth :: nat where "maxDepth = 7"
definition growthDelayPerLevel :: real where "growthDelayPerLevel = 0.11"
definition baseGrowthSpeed :: real where "baseGrowthSpeed = 0.00022"
definition pulseBoost :: real where "pulseBoost = 0.04"
definition sawRadius :: real where "sawRadius = 28"
definition sawCooldown :: real where "sawCooldown = 140"
definition fruitDepthStart :: nat where "fruitDepthStart = 4"
definition saplingMin :: int where "saplingMin = 2"
definition saplingMax :: int where "saplingMax = 4"

subsection \<open>Helpers\<close>

text \<open>\<^verbatim>\<open>const clamp = (value, min, max) => Math.min(max, Math.max(min, value));\<close>\<close>

definition clamp :: "real \<Rightarrow> real \<Rightarrow> real \<Rightarrow> real" where
  "clamp v lo hi = min hi (max lo v)"

text \<open>\<^verbatim>\<open>const easeOutCubic = (t) => 1 - Math.pow(1 - t, 3);\<close>\<close>

definition easeOutCubic :: "real \<Rightarrow> real" where
  "easeOutCubic t = 1 - (1 - t) ^ 3"

text \<open>\<^verbatim>\<open>const seededRandom = (seed) => (Math.sin(seed * 9341.13) + 1) / 2;\<close>\<close>

definition seededRandom :: "real \<Rightarrow> real" where
  "seededRandom sd = (sin (sd * 9341.13) + 1) / 2"

subsection \<open>Branches\<close>

text \<open>
  A branch object has fields that are fixed when \<open>createBranch\<close> returns (\<open>id\<close>, \<open>depth\<close>,
  \<open>length\<close>, \<open>angle\<close>, \<open>seed\<close>, \<open>children\<close>, \<open>swayPhase\<close>, \<open>baseWidth\<close>, \<open>color\<close>,
  \<open>pruneLength\<close>) and fields that are assigned later through references held in
  \<open>tree\<close> and in \<open>branchSegments\<close> (\<open>pruned\<close>, \<open>regrowAt\<close>, \<open>fruits\<close>). The fixed fields
  form the value \<open>branch\<close>; the assigned fields live in a store of cells, and every
  branch carries the address \<open>ref\<close> of its cell, which stands for the identity of the
  JavaScript object. Addresses are never reused: a new object's address is the
  current size of the store.
\<close>

record rgb =
  red :: real
  green :: real
  blue :: real

record props =
  ref :: nat
  bid :: nat
  depth :: nat
  blength :: real
  angle :: real
  seed :: real
  swayPhase :: real
  baseWidth :: real
  color :: rgb
  pruneLength :: real

datatype branch = Branch props "branch list"

fun fieldsOf :: "branch \<Rightarrow> props" where
  "fieldsOf (Branch p cs) = p"

fun children :: "branch \<Rightarrow> branch list" where
  "children (Branch p cs) = cs"

record fruit =
  offset :: real
  angleOffset :: real
  ripeness :: real
  counted :: bool

record cell =
  pruned :: bool
  regrowAt :: real
  fruits :: "fruit list option"

subsection \<open>The state threaded through the generator\<close>

record heap =
  branchIdCounter :: nat
  random :: "nat \<Rightarrow> real"
  store :: "cell list"

subsection \<open>Saplings, segments, the saw, the life stage\<close>

record sapling =
  sap_x :: real
  sap_y :: real
  sap_growth :: real
  sap_phase :: real
  sap_sway :: real

record segment =
  seg_branch :: branch
  x1 :: real
  y1 :: real
  x2 :: real
  y2 :: real

record saw =
  active :: bool
  saw_x :: real
  saw_y :: real
  lastCut :: real

datatype stage = Seed | Sprout | Young | Mature | Fruit | Decline | SeedFall | Rebirth

subsection \<open>The global variables\<close>

text \<open>
  The \<open>let\<close> variables of the script (lines 48-77), on top of the generator's state.
  \<open>tree = null\<close> is \<open>None\<close>.
\<close>

record world = heap +
  width :: real
  height :: real
  tree :: "branch option"
  growth :: real
  targetGrowth :: real
  hydration :: real
  lastTime :: real
  deltaMs :: real
  simulatedAge :: real
  wind :: real
  windTarget :: real
  season :: real
  lifeStage :: stage
  stageTimer :: real
  regenCountdown :: real
  fruitsRipened :: int
  branchSegments :: "segment list"
  saplings :: "sapling list"
  sawState :: saw

text \<open>\<open>Math.random()\<close>: the head of the stream, and the state with the stream's tail.\<close>

definition Math_random :: "'a heap_scheme \<Rightarrow> real \<times> 'a heap_scheme" where
  "Math_random w = (random w 0, w\<lparr>random := (\<lambda>i. random w (Suc i))\<rparr>)"

section \<open>The branch tree generator\<close>

text \<open>The seed-derived locals of \<open>createBranch\<close> (lines 132-134 and 144 of the source).\<close>

definition spread :: "real \<Rightarrow> real" where
  "spread sd = 0.25 + seededRandom (sd + 1) * 0.35"

definition lenFactor :: "nat \<Rightarrow> real \<Rightarrow> real" where
  "lenFactor d sd = 0.68 + seededRandom (sd + 2) * 0.1 - real d * 0.01"

definition lean :: "real \<Rightarrow> real" where
  "lean sd = (seededRandom (sd + 3) - 0.5) * 0.18"

definition variance :: "real \<Rightarrow> real" where
  "variance sd = (seededRandom (sd + 5) - 0.5) * spread sd"

text \<open>
  The object literal at the head of \<open>createBranch\<close>: \<open>branchIdCounter++\<close>, then one
  \<open>Math.random()\<close> for \<open>swayPhase\<close>, and a new object with \<open>pruned: false\<close>,
  \<open>regrowAt: 0\<close>, \<open>fruits: null\<close>.
\<close>

definition newBranch :: "nat \<Rightarrow> real \<Rightarrow> real \<Rightarrow> real \<Rightarrow> 'a heap_scheme \<Rightarrow> props \<times> 'a heap_scheme" where
  "newBranch d len ang sd w =
     (let i = branchIdCounter w;
          w1 = w\<lparr>branchIdCounter := i + 1\<rparr>;
          (rnd, w2) = Math_random w1;
          p = \<lparr> ref = length (store w2), bid = i, depth = d, blength = len, angle = ang,
                seed = sd, swayPhase = rnd * pi * 2,
                baseWidth = max 1 ((real maxDepth - real d + 1) * 1.15),
                color = \<lparr> red = 82 + real d * 5 + seededRandom (sd + 6) * 25,
                          green = 58 + real d * 3 + seededRandom (sd + 7) * 18,
                          blue = 42 + real d * 2 + seededRandom (sd + 8) * 18 \<rparr>,
                pruneLength = len * (0.2 + seededRandom (sd + 12) * 0.2) \<rparr>
      in (p, w2\<lparr>store := store w2 @ [\<lparr> pruned = False, regrowAt = 0, fruits = None \<rparr>]\<rparr>))"

function createBranch :: "nat \<Rightarrow> real \<Rightarrow> real \<Rightarrow> real \<Rightarrow> 'a heap_scheme \<Rightarrow> branch \<times> 'a heap_scheme" where
  "createBranch d len ang sd w =
     (case newBranch d len ang sd w of (p, w0) \<Rightarrow>
        if d \<ge> maxDepth then (Branch p [], w0)
        else
          (case createBranch (d + 1) (len * lenFactor d sd) (ang + spread sd + lean sd) (sd * 1.71 + 1) w0 of (c1, w1) \<Rightarrow>
           case createBranch (d + 1) (len * lenFactor d sd) (ang - spread sd + lean sd) (sd * 1.71 + 2) w1 of (c2, w2) \<Rightarrow>
             if d > 1 \<and> seededRandom (sd + 4) > 0.58 then
               (case createBranch (d + 1) (len * (lenFactor d sd * 0.9)) (ang + variance sd) (sd * 1.71 + 3) w2 of (c3, w3) \<Rightarrow>
                  (Branch p [c1, c2, c3], w3))
             else (Branch p [c1, c2], w2)))"
  by pat_completeness auto
termination
  by (relation "measure (\<lambda>(d, len, ang, sd, w). maxDepth - d)") auto

declare createBranch.simps [simp del]

text \<open>
  \<^verbatim>\<open>function buildTree() { branchIdCounter = 0;
     const baseLength = Math.min(width, height) * 0.25;
     return createBranch(0, baseLength, 0, Math.random() * 1000); }\<close>
\<close>

definition buildTree :: "world \<Rightarrow> branch \<times> world" where
  "buildTree w =
     (let w1 = w\<lparr>branchIdCounter := 0\<rparr>;
          baseLength = min (width w1) (height w1) * 0.25;
          (rnd, w2) = Math_random w1
      in createBranch 0 baseLength 0 (rnd * 1000) w2)"

text \<open>All branches of a tree, parents before children, children in order.\<close>

fun nodes :: "branch \<Rightarrow> branch list" where
  "nodes (Branch p cs) = Branch p cs # concat (map nodes cs)"

text \<open>
  What two trees are compared on: a branch without its identity, its \<open>id\<close> and its
  \<open>swayPhase\<close> (the fields that come from the counter and from \<open>Math.random()\<close>), with
  its children in order.
\<close>

datatype shape = Shape nat real real real real rgb real "shape list"

fun shapeOf :: "branch \<Rightarrow> shape" where
  "shapeOf (Branch p cs) =
     Shape (depth p) (blength p) (angle p) (seed p) (baseWidth p) (color p) (pruneLength p)
       (map shapeOf cs)"

section \<open>Saplings\<close>

text \<open>One element of \<open>Array.from({ length: count }).map(() => ({ ... }))\<close> in \<open>spawnSaplings\<close>.\<close>

definition newSapling :: "world \<Rightarrow> sapling \<times> world" where
  "newSapling w =
     (let (ra, w1) = Math_random w;
          (rb, w2) = Math_random w1;
          (rc, w3) = Math_random w2;
          (rd, w4) = Math_random w3
      in (\<lparr> sap_x = width w / 2 + (ra - 0.5) * width w * 0.18,
            sap_y = height w - 45 + rb * 10,
            sap_growth = 0.02,
            sap_phase = rc * pi * 2,
            sap_sway = 0.4 + rd * 0.6 \<rparr>, w4))"

fun makeSaplings :: "nat \<Rightarrow> world \<Rightarrow> sapling list \<times> world" where
  "makeSaplings 0 w = ([], w)"
| "makeSaplings (Suc n) w =
     (case newSapling w of (s, w1) \<Rightarrow>
      case makeSaplings n w1 of (ss, w2) \<Rightarrow> (s # ss, w2))"

definition fruitBonus :: "int \<Rightarrow> int" where
  "fruitBonus ripened = min 3 \<lfloor>real_of_int ripened / 6\<rfloor>"

definition saplingCount :: "real \<Rightarrow> int \<Rightarrow> int" where
  "saplingCount rnd bonus =
     (let randomCount = real_of_int saplingMin + rnd * real_of_int (saplingMax - saplingMin + 1)
      in max saplingMin \<lfloor>randomCount + real_of_int bonus\<rfloor>)"

definition spawnSaplings :: "world \<Rightarrow> world" where
  "spawnSaplings w =
     (let bonus = fruitBonus (fruitsRipened w);
          (rnd, w1) = Math_random w;
          count = saplingCount rnd bonus;
          w2 = w1\<lparr>fruitsRipened := max 0 (fruitsRipened w1 - bonus * 3)\<rparr>;
          (ss, w3) = makeSaplings (nat count) w2
      in w3\<lparr>saplings := ss\<rparr>)"

definition updateSaplings :: "real \<Rightarrow> world \<Rightarrow> world" where
  "updateSaplings delta w =
     w\<lparr>saplings :=
         map (\<lambda>s. s\<lparr>sap_growth := clamp (sap_growth s + delta * 0.00012) 0 1,
                       sap_phase := sap_phase s + delta * 0.001\<rparr>) (saplings w)\<rparr>"

section \<open>The life-stage state machine\<close>

definition setStage :: "stage \<Rightarrow> world \<Rightarrow> world" where
  "setStage nextStage w =
     (if lifeStage w = nextStage then w
      else w\<lparr>lifeStage := nextStage, stageTimer := 0\<rparr>)"

text \<open>
  The \<open>switch\<close> of \<open>updateLifeStage\<close>. In the \<open>fruit\<close> case \<open>||\<close> evaluates
  \<open>Math.random()\<close> only when \<open>stageTimer > 32000\<close> is false.
\<close>

definition stageSwitch :: "real \<Rightarrow> world \<Rightarrow> world" where
  "stageSwitch delta w =
     (case lifeStage w of
        Seed \<Rightarrow> if growth w > 0.18 then setStage Sprout w else w
      | Sprout \<Rightarrow> if growth w > 0.42 then setStage Young w else w
      | Young \<Rightarrow> if growth w > 0.66 then setStage Mature w else w
      | Mature \<Rightarrow> if growth w > 0.82 \<and> stageTimer w > 6000 then setStage Fruit w else w
      | Fruit \<Rightarrow>
          if stageTimer w > 32000 then setStage Decline w
          else (case Math_random w of (rnd, w1) \<Rightarrow>
                  if rnd < delta * 0.0000006 then setStage Decline w1 else w1)
      | Decline \<Rightarrow> if growth w < 0.3 then setStage SeedFall w else w
      | SeedFall \<Rightarrow>
          (let w1 = w\<lparr>regenCountdown := regenCountdown w + delta\<rparr>;
               w2 = (if saplings w1 = [] then spawnSaplings w1 else w1)
           in if regenCountdown w2 > 18000 then setStage Rebirth w2 else w2)
      | Rebirth \<Rightarrow>
          (let w1 = (if saplings w = [] then spawnSaplings w else w)
           in if list_all (\<lambda>s. sap_growth s > 0.98) (saplings w1) then
                (case buildTree w1 of (t, w2) \<Rightarrow>
                   setStage Sprout
                     (w2\<lparr>tree := Some t, growth := 0.05, targetGrowth := 0.15, saplings := []\<rparr>))
              else w1))"

definition updateLifeStage :: "real \<Rightarrow> world \<Rightarrow> world" where
  "updateLifeStage delta w =
     (let w1 = stageSwitch delta w;
          w2 = (if lifeStage w1 \<noteq> SeedFall \<and> lifeStage w1 \<noteq> Rebirth
                then w1\<lparr>regenCountdown := 0\<rparr> else w1)
      in if lifeStage w2 = Decline
         then w2\<lparr>targetGrowth := max 0.24 (targetGrowth w2 - delta * 0.00012)\<rparr>
         else w2)"

section \<open>Drawing the tree: what the walk writes\<close>

text \<open>
  \<open>drawFruit(x, y, branch, angle, time)\<close>: the parameters \<open>x\<close>, \<open>y\<close>, \<open>angle\<close> and \<open>time\<close>
  only place the ellipses on the canvas. \<open>newFruit\<close> is the callback of
  \<open>Array.from({ length: count }).map((_, idx) => ...)\<close>, \<open>ripenFruit\<close> the part of the
  \<open>forEach\<close> callback that assigns (lines 560-564).
\<close>

definition newFruit :: "real \<Rightarrow> nat \<Rightarrow> world \<Rightarrow> fruit \<times> world" where
  "newFruit sd idx w =
     (case Math_random w of (rnd, w1) \<Rightarrow>
        (\<lparr> offset = (if idx = 0 then - 1 else 1) * (0.5 + seededRandom (sd + real idx) * 0.3),
           angleOffset = (if idx = 0 then - 0.4 else 0.4)
                         + (seededRandom (sd + real idx + 1) - 0.5) * 0.3,
           ripeness = 0.1 + rnd * 0.2,
           counted = False \<rparr>, w1))"

fun makeFruits :: "real \<Rightarrow> nat \<Rightarrow> nat \<Rightarrow> world \<Rightarrow> fruit list \<times> world" where
  "makeFruits sd idx 0 w = ([], w)"
| "makeFruits sd idx (Suc n) w =
     (case newFruit sd idx w of (f, w1) \<Rightarrow>
      case makeFruits sd (Suc idx) n w1 of (fs, w2) \<Rightarrow> (f # fs, w2))"

definition ripenFruit :: "fruit \<Rightarrow> world \<Rightarrow> fruit \<times> world" where
  "ripenFruit f w =
     (let f1 = f\<lparr>ripeness := clamp (ripeness f + deltaMs w * 0.00005 + hydration w * 0.0001) 0 1.2\<rparr>
      in if ripeness f1 > 0.98 \<and> \<not> counted f1
         then (f1\<lparr>counted := True\<rparr>, w\<lparr>fruitsRipened := fruitsRipened w + 1\<rparr>)
         else (f1, w))"

fun ripenFruits :: "fruit list \<Rightarrow> world \<Rightarrow> fruit list \<times> world" where
  "ripenFruits [] w = ([], w)"
| "ripenFruits (f # fs) w =
     (case ripenFruit f w of (f', w1) \<Rightarrow>
      case ripenFruits fs w1 of (fs', w2) \<Rightarrow> (f' # fs', w2))"

definition drawFruit :: "props \<Rightarrow> world \<Rightarrow> world" where
  "drawFruit p w =
     (if lifeStage w \<noteq> Fruit \<and> lifeStage w \<noteq> Decline \<and> lifeStage w \<noteq> SeedFall then w
      else
        (case (case fruits (store w ! ref p) of
                 None \<Rightarrow> makeFruits (seed p) 0 (if seededRandom (seed p + 40) > 0.65 then 2 else 1) w
               | Some fs \<Rightarrow> (fs, w)) of (fs, w1) \<Rightarrow>
         case ripenFruits fs w1 of (fs', w2) \<Rightarrow>
           w2\<lparr>store := (store w2)[ref p := (store w2 ! ref p)\<lparr>fruits := Some fs'\<rparr>]\<rparr>))"

text \<open>The \<open>progress\<close> of a branch at depth \<open>d\<close> under the global \<open>growth\<close> (lines 458-460).\<close>

definition progress :: "nat \<Rightarrow> real \<Rightarrow> real" where
  "progress d g =
     (let depthDelay = real d * growthDelayPerLevel;
          available = 1 - depthDelay
      in clamp ((g - depthDelay) / available) 0 1)"

text \<open>The direction of a branch in the current frame (lines 467-472).\<close>

definition frameAngle :: "props \<Rightarrow> real \<Rightarrow> real \<Rightarrow> world \<Rightarrow> real" where
  "frameAngle p time parentAngle w =
     (let sway = sin (time * 0.0009 + swayPhase p + seed p)
                 * (0.03 + (real maxDepth - real (depth p)) * 0.005)
                 * (0.35 + growth w * 0.65);
          windGust = wind w * (0.25 + real (depth p) * 0.04)
      in parentAngle + angle p + sway + windGust)"

text \<open>
  \<open>drawBranch(branch, time, parentAngle, startX, startY)\<close>, without the canvas calls:
  the early return, the regrowth of a pruned branch or its stub, the segment pushed to
  \<open>branchSegments\<close>, the fruit of a leaf and the walk into the children.
\<close>

fun drawBranch :: "branch \<Rightarrow> real \<Rightarrow> real \<Rightarrow> real \<Rightarrow> real \<Rightarrow> world \<Rightarrow> world" where
  "drawBranch (Branch p cs) time parentAngle startX startY w =
     (if progress (depth p) (growth w) \<le> 0 then w
      else
        (let eased = easeOutCubic (progress (depth p) (growth w));
             ang = frameAngle p time parentAngle w;
             len = blength p * eased;
             endX = startX + sin ang * len;
             endY = startY - cos ang * len
         in if pruned (store w ! ref p) \<and> \<not> time > regrowAt (store w ! ref p) then w
            else
              (let w1 = (if pruned (store w ! ref p)
                         then w\<lparr>store := (store w)[ref p := (store w ! ref p)\<lparr>pruned := False\<rparr>]\<rparr>
                         else w);
                   w2 = w1\<lparr>branchSegments := branchSegments w1 @
                           [\<lparr> seg_branch = Branch p cs, x1 = startX, y1 = startY, x2 = endX, y2 = endY \<rparr>]\<rparr>
               in if cs = [] \<and> progress (depth p) (growth w) > 0.35 then
                    (if depth p \<ge> fruitDepthStart then drawFruit p w2 else w2)
                  else if progress (depth p) (growth w) > 0.55 then
                    fold (\<lambda>child. drawBranch child time ang endX endY) cs w2
                  else w2)))"

declare drawBranch.simps [simp del]

definition drawTree :: "real \<Rightarrow> world \<Rightarrow> world" where
  "drawTree time w =
     (case tree w of
        None \<Rightarrow> w
      | Some t \<Rightarrow> drawBranch t time 0 (width w / 2) (height w - 60) (w\<lparr>branchSegments := []\<rparr>))"

section \<open>The saw\<close>

definition closestPoint :: "real \<Rightarrow> real \<Rightarrow> real \<Rightarrow> real \<Rightarrow> real \<Rightarrow> real \<Rightarrow> real \<times> real" where
  "closestPoint xa ya xb yb px py =
     (let dx = xb - xa;
          dy = yb - ya;
          lenSq = (if dx * dx + dy * dy = 0 then 1 else dx * dx + dy * dy);
          t = clamp (((px - xa) * dx + (py - ya) * dy) / lenSq) 0 1
      in (xa + dx * t, ya + dy * t))"

text \<open>\<open>Math.hypot\<close> of two numbers.\<close>

definition hypot :: "real \<Rightarrow> real \<Rightarrow> real" where
  "hypot a b = sqrt (a * a + b * b)"

text \<open>The distance \<open>dist\<close> that \<open>performSawCut\<close> computes for a segment (lines 633-634).\<close>

definition segDist :: "segment \<Rightarrow> real \<Rightarrow> real \<Rightarrow> real" where
  "segDist s px py =
     (case closestPoint (x1 s) (y1 s) (x2 s) (y2 s) px py of (qx, qy) \<Rightarrow> hypot (qx - px) (qy - py))"

text \<open>The segments the \<open>forEach\<close> of \<open>performSawCut\<close> does not skip.\<close>

definition cuttable :: "world \<Rightarrow> segment \<Rightarrow> bool" where
  "cuttable w s =
     (\<not> (depth (fieldsOf (seg_branch s)) = 0 \<or> pruned (store w ! ref (fieldsOf (seg_branch s)))))"

text \<open>The three locals \<open>chosen\<close>, \<open>bestDist\<close>, \<open>chosenPoint\<close> and the \<open>forEach\<close> over them.\<close>

record pick =
  chosen :: "segment option"
  bestDist :: real
  chosenPoint :: "(real \<times> real) option"

definition sawScanStep :: "world \<Rightarrow> segment \<Rightarrow> pick \<Rightarrow> pick" where
  "sawScanStep w s acc =
     (if \<not> cuttable w s then acc
      else
        (let point = closestPoint (x1 s) (y1 s) (x2 s) (y2 s) (saw_x (sawState w)) (saw_y (sawState w));
             dist = hypot (fst point - saw_x (sawState w)) (snd point - saw_y (sawState w))
         in if dist < bestDist acc
            then \<lparr> chosen = Some s, bestDist = dist, chosenPoint = Some point \<rparr>
            else acc))"

definition sawScan :: "world \<Rightarrow> pick" where
  "sawScan w =
     fold (sawScanStep w) (branchSegments w)
       \<lparr> chosen = None, bestDist = sawRadius, chosenPoint = None \<rparr>"

text \<open>
  \<open>performSawCut()\<close>; the argument \<open>now\<close> is the value of \<open>performance.now()\<close>. The
  sawdust burst and the hint text are not modelled.
\<close>

definition performSawCut :: "real \<Rightarrow> world \<Rightarrow> world" where
  "performSawCut now w =
     (if branchSegments w = [] then w
      else if now - lastCut (sawState w) < sawCooldown then w
      else
        (case (chosen (sawScan w), chosenPoint (sawScan w)) of
           (Some s, Some pt) \<Rightarrow>
             (case Math_random w of (rnd, w1) \<Rightarrow>
                (let a = ref (fieldsOf (seg_branch s));
                     w2 = w1\<lparr>store := (store w1)[a := (store w1 ! a)\<lparr>pruned := True\<rparr>]\<rparr>;
                     w3 = w2\<lparr>store := (store w2)[a := (store w2 ! a)\<lparr>regrowAt := now + 18000 + rnd * 14000\<rparr>]\<rparr>
                 in w3\<lparr>sawState := (sawState w3)\<lparr>lastCut := now\<rparr>\<rparr>))
         | _ \<Rightarrow> w))"

section \<open>The frame loop and the event handlers\<close>

text \<open>\<open>deltaMs = time - lastTime || 16; deltaMs = Math.min(Math.max(deltaMs, 8), 120);\<close>\<close>

definition frameDelta :: "real \<Rightarrow> real \<Rightarrow> real" where
  "frameDelta time prev =
     (let d = (if time - prev = 0 then 16 else time - prev)
      in min (max d 8) 120)"

text \<open>Lines 755-757: one step of the easing of \<open>growth\<close> toward \<open>targetGrowth\<close>.\<close>

definition easeGrowth :: "real \<Rightarrow> real \<Rightarrow> real \<Rightarrow> real" where
  "easeGrowth dm target g =
     (let lerpFactor = clamp (dm * baseGrowthSpeed) 0 0.04
      in clamp (g + (target - g) * lerpFactor) 0 1.08)"

text \<open>
  The frame callback \<open>loop(time)\<close>. \<open>advance\<close> is its first part, lines 750-771: the
  elapsed time, \<open>growth\<close>, \<open>hydration\<close>, \<open>targetGrowth\<close>, \<open>wind\<close>, \<open>season\<close>,
  \<open>stageTimer\<close> and \<open>simulatedAge\<close>. \<open>loop\<close> then runs \<open>updateLifeStage\<close>,
  \<open>updateSaplings\<close> and \<open>drawTree\<close> in the order of the source.
\<close>

definition advance :: "real \<Rightarrow> world \<Rightarrow> world" where
  "advance time w =
     (let dm = frameDelta time (lastTime w);
          w1 = w\<lparr>deltaMs := dm, lastTime := time\<rparr>;
          w2 = w1\<lparr>growth := easeGrowth dm (targetGrowth w1) (growth w1)\<rparr>;
          w3 = w2\<lparr>hydration := max 0 (hydration w2 - dm * 0.00022)\<rparr>;
          w4 = (if hydration w3 > 0.001
                then w3\<lparr>targetGrowth := clamp (targetGrowth w3 + hydration w3 * 0.0005) 0 1.08\<rparr>
                else w3);
          w5 = w4\<lparr>wind := wind w4 + (windTarget w4 - wind w4) * clamp (dm * 0.0006) 0 1\<rparr>;
          (ra, w6) = Math_random w5;
          w7 = (if ra < 0.002
                then (case Math_random w6 of (rb, w') \<Rightarrow>
                        w'\<lparr>windTarget := (rb - 0.5) * (0.4 + 0.3 * (1 - growth w'))\<rparr>)
                else w6)
      in w7\<lparr>season := season w7 + dm * 0.000015,
             stageTimer := stageTimer w7 + dm,
             simulatedAge := simulatedAge w7 + dm * 0.00005\<rparr>)"

definition loop :: "real \<Rightarrow> world \<Rightarrow> world" where
  "loop time w =
     (let w8 = advance time w;
          w9 = updateLifeStage (deltaMs w8) w8;
          w10 = updateSaplings (deltaMs w9) w9
      in drawTree time w10)"

text \<open>The click handler of the water button.\<close>

definition water :: "world \<Rightarrow> world" where
  "water w =
     (let w1 = w\<lparr>hydration := min 1.5 (hydration w + 0.9)\<rparr>;
          w2 = w1\<lparr>targetGrowth := clamp (targetGrowth w1 + 0.1) 0 1.08\<rparr>;
          (rnd, w3) = Math_random w2
      in w3\<lparr>windTarget := (rnd - 0.5) * 0.5\<rparr>)"

text \<open>
  \<open>scheduleGrowthPulse()\<close> takes one random number for the delay of the timer; the
  delay itself is not modelled, a pulse is an event like the others. \<open>growthPulse\<close> is
  the timer callback, which ends by scheduling the next pulse.
\<close>

definition scheduleGrowthPulse :: "world \<Rightarrow> world" where
  "scheduleGrowthPulse w = snd (Math_random w)"

definition growthPulse :: "world \<Rightarrow> world" where
  "growthPulse w =
     (let maturityBonus = (if lifeStage w = Fruit then 1 else if lifeStage w = Mature then 0.7
                           else if lifeStage w = Seed then 1.2 else 0.5);
          (ra, w1) = Math_random w;
          w2 = w1\<lparr>targetGrowth := clamp (targetGrowth w1 + pulseBoost * (0.4 + ra * maturityBonus)) 0 1.08\<rparr>;
          (rb, w3) = Math_random w2;
          w4 = w3\<lparr>simulatedAge := simulatedAge w3 + 0.4 + rb * 0.7\<rparr>
      in scheduleGrowthPulse w4)"

text \<open>The pointer handlers; a point is already in canvas coordinates.\<close>

definition updatePointer :: "real \<times> real \<Rightarrow> world \<Rightarrow> world" where
  "updatePointer point w = w\<lparr>sawState := (sawState w)\<lparr>saw_x := fst point, saw_y := snd point\<rparr>\<rparr>"

definition pointerdown :: "int \<Rightarrow> real \<times> real \<Rightarrow> real \<Rightarrow> world \<Rightarrow> world" where
  "pointerdown button point now w =
     (if button \<noteq> 0 then w
      else performSawCut now (updatePointer point (w\<lparr>sawState := (sawState w)\<lparr>active := True\<rparr>\<rparr>)))"

definition pointermove :: "real \<times> real \<Rightarrow> real \<Rightarrow> world \<Rightarrow> world" where
  "pointermove point now w =
     (let w1 = updatePointer point w
      in if active (sawState w1) then performSawCut now w1 else w1)"

definition pointerup :: "world \<Rightarrow> world" where
  "pointerup w = w\<lparr>sawState := (sawState w)\<lparr>active := False\<rparr>\<rparr>"

text \<open>\<open>resize()\<close> with the window's new size.\<close>

definition resize :: "real \<Rightarrow> real \<Rightarrow> world \<Rightarrow> world" where
  "resize wd ht w =
     (case buildTree (w\<lparr>width := wd, height := ht\<rparr>) of (t, w1) \<Rightarrow>
        (w1\<lparr>tree := Some t\<rparr>)\<lparr>sawState := (sawState w1)\<lparr>saw_x := width w1 / 2, saw_y := height w1 / 2\<rparr>\<rparr>)"

text \<open>Everything that can happen after the script has started.\<close>

datatype event =
    Frame real
  | Water
  | Pulse
  | PointerDown int "real \<times> real" real
  | PointerMove "real \<times> real" real
  | PointerUp
  | Resize real real

fun fire :: "event \<Rightarrow> world \<Rightarrow> world" where
  "fire (Frame time) w = loop time w"
| "fire Water w = water w"
| "fire Pulse w = growthPulse w"
| "fire (PointerDown button point now) w = pointerdown button point now w"
| "fire (PointerMove point now) w = pointermove point now w"
| "fire PointerUp w = pointerup w"
| "fire (Resize wd ht) w = resize wd ht w"

text \<open>
  The state when the script has run to its end: the initial values of lines 48-77
  (\<open>season\<close> takes the first random number, \<open>lastTime\<close> is \<open>performance.now()\<close>), then
  the first \<open>resize()\<close>, then \<open>scheduleGrowthPulse()\<close>.
\<close>

definition boot :: "(nat \<Rightarrow> real) \<Rightarrow> real \<Rightarrow> real \<Rightarrow> real \<Rightarrow> world" where
  "boot rnd t0 wd ht =
     scheduleGrowthPulse (resize wd ht
       \<lparr> branchIdCounter = 0, random = (\<lambda>i. rnd (Suc i)), store = [],
         width = 0, height = 0, tree = None, growth = 0.015, targetGrowth = 0.08,
         hydration = 0, lastTime = t0, deltaMs = 16, simulatedAge = 0, wind = 0,
         windTarget = 0, season = rnd 0 * pi * 2, lifeStage = Seed, stageTimer = 0,
         regenCountdown = 0, fruitsRipened = 0, branchSegments = [], saplings = [],
         sawState = \<lparr> active = False, saw_x = 0, saw_y = 0, lastCut = 0 \<rparr> \<rparr>)"

fun run :: "event list \<Rightarrow> world \<Rightarrow> world" where
  "run [] w = w"
| "run (e # es) w = run es (fire e w)"

section \<open>Notions used to state the properties\<close>

text \<open>The number of nodes of a shape.\<close>

fun countShape :: "shape \<Rightarrow> nat" where
  "countShape (Shape d len ang sd bw col pl ss) = 1 + sum_list (map countShape ss)"

text \<open>The depth invariant of one node.\<close>

definition nodeOk :: "branch \<Rightarrow> bool" where
  "nodeOk n \<longleftrightarrow>
     depth (fieldsOf n) \<le> maxDepth
     \<and> (depth (fieldsOf n) = maxDepth \<longrightarrow> children n = [])
     \<and> (depth (fieldsOf n) < maxDepth \<longrightarrow> length (children n) = 2 \<or> length (children n) = 3)"

text \<open>
  A root seed in \<open>[0, 1000)\<close>, about \<open>1.196\<close>, whose first child has the seed \<open>s\<close> with
  \<open>(s + 2) * 9341.13 = 30003 * pi / 2\<close>, where the sine is \<open>-1\<close>.
\<close>

definition lowSeed :: real where
  "lowSeed = (30003 * pi / 2 / 9341.13 - 3) / 1.71"

text \<open>A generator state to run examples in.\<close>

definition heap0 :: heap where
  "heap0 = \<lparr> branchIdCounter = 0, random = (\<lambda>i. 0), store = [] \<rparr>"


text \<open>
  Frame conditions. \<open>heapOnly w w'\<close>: \<open>w'\<close> differs from \<open>w\<close> at most in the generator's
  state (id counter, random stream, store). \<open>drawOnly w w'\<close>: \<open>w'\<close> differs from \<open>w\<close> at
  most in what the tree walk writes.
\<close>

definition heapOnly :: "'a heap_scheme \<Rightarrow> 'a heap_scheme \<Rightarrow> bool" where
  "heapOnly w w' \<longleftrightarrow> heap.more w' = heap.more w"

definition drawOnly :: "world \<Rightarrow> world \<Rightarrow> bool" where
  "drawOnly w w' \<longleftrightarrow>
     w' = w\<lparr>random := random w', store := store w', fruitsRipened := fruitsRipened w',
            branchSegments := branchSegments w'\<rparr>"

text \<open>
  The table of section 4.3 of the specification: the stage that follows each stage, and
  the exit condition of the current stage, read in the state in which \<open>updateLifeStage\<close>
  is called with the elapsed time \<open>delta\<close>. The random event of the \<open>fruit\<close> row is
  \<open>Math.random() < delta * 0.0000006\<close>; the \<open>seedFall\<close> row compares the countdown after
  \<open>delta\<close> has been added.
\<close>

fun successor :: "stage \<Rightarrow> stage" where
  "successor Seed = Sprout"
| "successor Sprout = Young"
| "successor Young = Mature"
| "successor Mature = Fruit"
| "successor Fruit = Decline"
| "successor Decline = SeedFall"
| "successor SeedFall = Rebirth"
| "successor Rebirth = Sprout"

definition exitCondition :: "real \<Rightarrow> world \<Rightarrow> bool" where
  "exitCondition delta w =
     (case lifeStage w of
        Seed \<Rightarrow> growth w > 0.18
      | Sprout \<Rightarrow> growth w > 0.42
      | Young \<Rightarrow> growth w > 0.66
      | Mature \<Rightarrow> growth w > 0.82 \<and> stageTimer w > 6000
      | Fruit \<Rightarrow> stageTimer w > 32000 \<or> random w 0 < delta * 0.0000006
      | Decline \<Rightarrow> growth w < 0.3
      | SeedFall \<Rightarrow> regenCountdown w + delta > 18000
      | Rebirth \<Rightarrow> list_all (\<lambda>s. sap_growth s > 0.98) (saplings w))"

text \<open>
  The states the program can be in: the state after the script has started, with a
  random stream in \<open>[0, 1)\<close>, and every state an event leads to from there.
\<close>

inductive reachable :: "world \<Rightarrow> bool" where
  boot: "\<forall>i. 0 \<le> rnd i \<and> rnd i < 1 \<Longrightarrow> reachable (boot rnd t0 wd ht)"
| fire: "reachable w \<Longrightarrow> reachable (fire e w)"

definition stageInv :: "world \<Rightarrow> bool" where
  "stageInv w \<longleftrightarrow> (lifeStage w = Rebirth \<longrightarrow> saplings w \<noteq> [])"

text \<open>The script's variables before the first \<open>resize()\<close>, to run examples in.\<close>

definition world0 :: world where
  "world0 =
     \<lparr> branchIdCounter = 0, random = (\<lambda>i. 1 / 2), store = [],
       width = 800, height = 600, tree = None, growth = 0.015, targetGrowth = 0.08,
       hydration = 0, lastTime = 0, deltaMs = 16, simulatedAge = 0, wind = 0,
       windTarget = 0, season = 0, lifeStage = Seed, stageTimer = 0,
       regenCountdown = 0, fruitsRipened = 0, branchSegments = [], saplings = [],
       sawState = \<lparr> active = False, saw_x = 0, saw_y = 0, lastCut = 0 \<rparr> \<rparr>"

text \<open>
  The distance from the pointer to a segment as \<open>performSawCut\<close> computes it, and
  what the \<open>forEach\<close> has established after the segments \<open>seen\<close>.
\<close>

definition sawDist :: "world \<Rightarrow> segment \<Rightarrow> real" where
  "sawDist w s = segDist s (saw_x (sawState w)) (saw_y (sawState w))"

definition scanned :: "world \<Rightarrow> segment list \<Rightarrow> pick \<Rightarrow> bool" where
  "scanned w seen acc \<longleftrightarrow>
     (case chosen acc of
        None \<Rightarrow> chosenPoint acc = None \<and> bestDist acc = sawRadius
                 \<and> (\<forall>s \<in> set seen. cuttable w s \<longrightarrow> sawRadius \<le> sawDist w s)
      | Some s \<Rightarrow> s \<in> set seen \<and> cuttable w s \<and> bestDist acc = sawDist w s
                 \<and> sawDist w s < sawRadius \<and> chosenPoint acc \<noteq> None
                 \<and> (\<forall>s' \<in> set seen. cuttable w s' \<longrightarrow> sawDist w s \<le> sawDist w s'))"

text \<open>The cell of a branch that \<open>createBranch\<close> has just made.\<close>

definition freshCell :: cell where
  "freshCell = \<lparr> pruned = False, regrowAt = 0, fruits = None \<rparr>"

text \<open>A state with one branch of depth 1 drawn from \<open>(0, 0)\<close> to \<open>(10, 0)\<close>, the pointer on it.\<close>

definition twigProps :: props where
  "twigProps = \<lparr> ref = 1, bid = 1, depth = 1, blength = 10, angle = 0, seed = 1,
                  swayPhase = 0, baseWidth = 8.05,
                  color = \<lparr> red = 90, green = 60, blue = 45 \<rparr>, pruneLength = 3 \<rparr>"

definition twig :: branch where
  "twig = Branch twigProps []"

definition sawWorld :: world where
  "sawWorld =
     world0\<lparr> store := [freshCell, freshCell],
             branchSegments := [\<lparr> seg_branch = twig, x1 = 0, y1 = 0, x2 = 10, y2 = 0 \<rparr>],
             sawState := \<lparr> active = True, saw_x = 5, saw_y = 0, lastCut = 0 \<rparr> \<rparr>"

text \<open>
  What a tree walk at time \<open>time\<close> may do to the store, to \<open>branchSegments\<close> and to
  \<open>fruitsRipened\<close>: cells keep their number and their \<open>regrowAt\<close>; \<open>pruned\<close> can only go
  from true to false, and not before \<open>regrowAt\<close>; segments are only appended, for branches
  in \<open>S\<close>; \<open>fruitsRipened\<close> does not decrease.
\<close>

definition walked :: "real \<Rightarrow> branch set \<Rightarrow> world \<Rightarrow> world \<Rightarrow> bool" where
  "walked time S w w' \<longleftrightarrow>
     length (store w') = length (store w)
     \<and> (\<forall>a < length (store w).
           (pruned (store w' ! a) \<longrightarrow> pruned (store w ! a))
           \<and> (pruned (store w ! a) \<and> time \<le> regrowAt (store w ! a) \<longrightarrow> pruned (store w' ! a))
           \<and> regrowAt (store w' ! a) = regrowAt (store w ! a))
     \<and> (\<exists>ext. branchSegments w' = branchSegments w @ ext \<and> (\<forall>s \<in> set ext. seg_branch s \<in> S))
     \<and> fruitsRipened w \<le> fruitsRipened w'"

text \<open>
  The segment \<open>drawBranch\<close> pushes for a branch it draws, and the state right after the
  push (the branch unpruned, the segment appended).
\<close>

definition stroke :: "props \<Rightarrow> branch list \<Rightarrow> real \<Rightarrow> real \<Rightarrow> real \<Rightarrow> real \<Rightarrow> world \<Rightarrow> segment" where
  "stroke p cs time parentAngle startX startY w =
     (let eased = easeOutCubic (progress (depth p) (growth w));
          ang = frameAngle p time parentAngle w;
          len = blength p * eased
      in \<lparr> seg_branch = Branch p cs, x1 = startX, y1 = startY,
           x2 = startX + sin ang * len, y2 = startY - cos ang * len \<rparr>)"

definition shown :: "props \<Rightarrow> branch list \<Rightarrow> real \<Rightarrow> real \<Rightarrow> real \<Rightarrow> real \<Rightarrow> world \<Rightarrow> world" where
  "shown p cs time parentAngle startX startY w =
     w\<lparr>store := (store w)[ref p := (store w ! ref p)\<lparr>pruned := False\<rparr>],
       branchSegments := branchSegments w @ [stroke p cs time parentAngle startX startY w]\<rparr>"

text \<open>\<open>grown w w'\<close>: the store of \<open>w'\<close> is the store of \<open>w\<close> followed by new cells.\<close>

definition grown :: "'a heap_scheme \<Rightarrow> 'a heap_scheme \<Rightarrow> bool" where
  "grown w w' \<longleftrightarrow> (\<exists>k. store w' = store w @ replicate k freshCell)"

text \<open>The same state with the branch cut: pruned until 26000, the tree half grown.\<close>

definition prunedWorld :: world where
  "prunedWorld =
     sawWorld\<lparr> store := [freshCell, \<lparr> pruned = True, regrowAt = 26000, fruits = None \<rparr>],
               growth := 0.5 \<rparr>"

text \<open>
  The addresses of the branches of a tree, and the invariant that every address the
  program holds (in \<open>tree\<close> or in \<open>branchSegments\<close>) is the address of a cell.
\<close>

definition refsOf :: "branch \<Rightarrow> nat list" where
  "refsOf t = map (\<lambda>n. ref (fieldsOf n)) (nodes t)"

definition refsValid :: "world \<Rightarrow> bool" where
  "refsValid w \<longleftrightarrow>
     (\<forall>t. tree w = Some t \<longrightarrow> (\<forall>a \<in> set (refsOf t). a < length (store w)))
     \<and> (\<forall>s \<in> set (branchSegments w). \<forall>a \<in> set (refsOf (seg_branch s)). a < length (store w))"

text \<open>A state in the \<open>rebirth\<close> stage whose one sapling is grown.\<close>

definition rebirthWorld :: world where
  "rebirthWorld =
     world0\<lparr> lifeStage := Rebirth,
             saplings := [\<lparr> sap_x = 400, sap_y = 555, sap_growth = 0.99, sap_phase = 0, sap_sway = 0.5 \<rparr>] \<rparr>"

text \<open>
  The life of one fruit: the states \<open>ws\<close> are those in which \<open>drawFruit\<close> reaches the
  fruit, one after the other. \<open>lifetime\<close> lists, for each of these calls, the fruit after
  the call and what the call added to \<open>fruitsRipened\<close>; \<open>ripeAt f ws k\<close> says that after
  call \<open>k\<close> the ripeness exceeds 0.98.
\<close>

fun lifetime :: "fruit \<Rightarrow> world list \<Rightarrow> (fruit \<times> int) list" where
  "lifetime f [] = []"
| "lifetime f (w # ws) =
     (fst (ripenFruit f w), fruitsRipened (snd (ripenFruit f w)) - fruitsRipened w)
       # lifetime (fst (ripenFruit f w)) ws"



text \<open>
  \<open>Math.random()\<close> returns a number in \<open>[0, 1)\<close>: the property of the stream of random
  numbers that the program relies on, and the relation between two states of which the
  second has consumed some numbers of the first.
\<close>

definition randomOk :: "'a heap_scheme \<Rightarrow> bool" where
  "randomOk w \<longleftrightarrow> (\<forall>i. 0 \<le> random w i \<and> random w i < 1)"

definition drained :: "'a heap_scheme \<Rightarrow> 'b heap_scheme \<Rightarrow> bool" where
  "drained w w' \<longleftrightarrow> (\<exists>k. \<forall>i. random w' i = random w (i + k))"

text \<open>The range in which \<open>growth\<close> and \<open>targetGrowth\<close> are kept.\<close>

definition growthOk :: "world \<Rightarrow> bool" where
  "growthOk w \<longleftrightarrow> 0 \<le> growth w \<and> growth w \<le> 1.08 \<and> 0 \<le> targetGrowth w \<and> targetGrowth w \<le> 1.08"

section \<open>Properties of the generator\<close>

lemma scheduleGrowthPulse_eq [simp]:
  "scheduleGrowthPulse w = w\<lparr>random := (\<lambda>i. random w (Suc i))\<rparr>"
  by (simp add: scheduleGrowthPulse_def Math_random_def)

subsection \<open>Unfolding \<open>createBranch\<close>\<close>

lemma seededRandom_range: "0 \<le> seededRandom sd \<and> seededRandom sd \<le> 1"
proof -
  have a: "0 \<le> sin (sd * 9341.13) + 1"
    using sin_ge_minus_one [of "sd * 9341.13"] by linarith
  have b: "sin (sd * 9341.13) + 1 \<le> 2"
    using sin_le_one [of "sd * 9341.13"] by linarith
  show ?thesis using a b by (simp add: seededRandom_def)
qed

lemma spread_range: "0.25 \<le> spread sd \<and> spread sd \<le> 0.60"
  using seededRandom_range [of "sd + 1"] by (simp add: spread_def)

lemma lean_range: "- 0.09 \<le> lean sd \<and> lean sd \<le> 0.09"
  using seededRandom_range [of "sd + 3"] by (simp add: lean_def)

lemma lenFactor_range:
  "0.68 - real d * 0.01 \<le> lenFactor d sd \<and> lenFactor d sd \<le> 0.78 - real d * 0.01"
  using seededRandom_range [of "sd + 2"] by (simp add: lenFactor_def)

lemma newBranch_fields [simp]:
  "depth (fst (newBranch d len ang sd w)) = d"
  "blength (fst (newBranch d len ang sd w)) = len"
  "angle (fst (newBranch d len ang sd w)) = ang"
  "seed (fst (newBranch d len ang sd w)) = sd"
  "ref (fst (newBranch d len ang sd w)) = length (store w)"
  "bid (fst (newBranch d len ang sd w)) = branchIdCounter w"
  by (simp_all add: newBranch_def Math_random_def Let_def)

lemma createBranch_leaf:
  "maxDepth \<le> d \<Longrightarrow>
   createBranch d len ang sd w =
     (Branch (fst (newBranch d len ang sd w)) [], snd (newBranch d len ang sd w))"
  by (subst createBranch.simps) (simp split: prod.splits)

lemma createBranch_inner:
  "d < maxDepth \<Longrightarrow>
   createBranch d len ang sd w =
     (let nb = newBranch d len ang sd w;
          ra = createBranch (d + 1) (len * lenFactor d sd) (ang + spread sd + lean sd) (sd * 1.71 + 1) (snd nb);
          rb = createBranch (d + 1) (len * lenFactor d sd) (ang - spread sd + lean sd) (sd * 1.71 + 2) (snd ra)
      in if d > 1 \<and> seededRandom (sd + 4) > 0.58
         then (let rc = createBranch (d + 1) (len * (lenFactor d sd * 0.9)) (ang + variance sd) (sd * 1.71 + 3) (snd rb)
               in (Branch (fst nb) [fst ra, fst rb, fst rc], snd rc))
         else (Branch (fst nb) [fst ra, fst rb], snd rb))"
  by (subst createBranch.simps) (simp add: Let_def split: prod.splits)

lemma createBranch_root [simp]:
  "fieldsOf (fst (createBranch d len ang sd w)) = fst (newBranch d len ang sd w)"
  by (cases "d < maxDepth") (simp_all add: createBranch_leaf createBranch_inner Let_def)

subsection \<open>Seed-derived branching parameters\<close>

text \<open>
  C9, amended. For a node created at depth \<open>d\<close> below \<open>maxDepth\<close> with seed \<open>sd\<close>:
  \<open>spread\<close> lies in \<open>[0.25, 0.60]\<close>, \<open>lean\<close> in \<open>[-0.09, 0.09]\<close>, and \<open>lenFactor\<close> in
  \<open>[0.68 - 0.01 d, 0.78 - 0.01 d]\<close> (the interval \<open>[0.68, 0.78]\<close> lowered by a hundredth
  per level). The first two children get the angles \<open>angle + spread + lean\<close> and
  \<open>angle - spread + lean\<close> and the length \<open>length * lenFactor\<close>.
\<close>

theorem primary_children:
  assumes "d < maxDepth"
  shows "0.25 \<le> spread sd \<and> spread sd \<le> 0.60
     \<and> - 0.09 \<le> lean sd \<and> lean sd \<le> 0.09
     \<and> 0.68 - real d * 0.01 \<le> lenFactor d sd \<and> lenFactor d sd \<le> 0.78 - real d * 0.01
     \<and> (\<exists>ca cb rest. children (fst (createBranch d len ang sd w)) = ca # cb # rest
          \<and> angle (fieldsOf ca) = ang + spread sd + lean sd
          \<and> angle (fieldsOf cb) = ang - spread sd + lean sd
          \<and> blength (fieldsOf ca) = len * lenFactor d sd
          \<and> blength (fieldsOf cb) = len * lenFactor d sd)"
  using assms spread_range [of sd] lean_range [of sd] lenFactor_range [of d sd]
  by (simp add: createBranch_inner Let_def)

theorem primary_children_witness:
  "(0::nat) < maxDepth \<and> 0.25 \<le> spread 42 \<and> spread 42 \<le> 0.60
     \<and> - 0.09 \<le> lean 42 \<and> lean 42 \<le> 0.09
     \<and> 0.68 \<le> lenFactor 0 42 \<and> lenFactor 0 42 \<le> 0.78
     \<and> (\<exists>ca cb rest. children (fst (createBranch 0 100 0 42 heap0)) = ca # cb # rest
          \<and> angle (fieldsOf ca) = spread 42 + lean 42
          \<and> angle (fieldsOf cb) = - spread 42 + lean 42
          \<and> blength (fieldsOf ca) = 100 * lenFactor 0 42
          \<and> blength (fieldsOf cb) = 100 * lenFactor 0 42)"
proof -
  have h: "(0::nat) < maxDepth" by (simp add: maxDepth_def)
  show ?thesis
    using h primary_children [OF h, of 42 100 0 heap0] by simp
qed

text \<open>
  The claim as stated gives \<open>lenFactor\<close> the interval \<open>[0.68, 0.78]\<close> at every depth below
  \<open>maxDepth\<close>. In the tree grown from the root seed \<open>lowSeed\<close> the first child of the root
  is a node at depth 1 whose \<open>lenFactor\<close> is \<open>0.67\<close>.
\<close>

lemma lowSeed_child: "(lowSeed * 1.71 + 1 + 2) * 9341.13 = real (Suc (2 * 15001)) * pi / 2"
  by (simp add: lowSeed_def field_simps)

lemma sin_lowSeed: "sin ((lowSeed * 1.71 + 1 + 2) * 9341.13) = - 1"
  by (simp only: lowSeed_child sin_cos_npi) simp

lemma lowSeed_range: "0 \<le> lowSeed \<and> lowSeed < 1000"
  using pi_ge_two pi_less_4 by (simp add: lowSeed_def field_simps)

theorem lenFactor_counterexample:
  "0 \<le> lowSeed \<and> lowSeed < 1000 \<and> (1::nat) < maxDepth
   \<and> depth (fieldsOf (hd (children (fst (createBranch 0 100 0 lowSeed heap0))))) = 1
   \<and> seed (fieldsOf (hd (children (fst (createBranch 0 100 0 lowSeed heap0))))) = lowSeed * 1.71 + 1
   \<and> lenFactor 1 (lowSeed * 1.71 + 1) = 0.67
   \<and> \<not> (0.68 \<le> lenFactor 1 (lowSeed * 1.71 + 1) \<and> lenFactor 1 (lowSeed * 1.71 + 1) \<le> 0.78)"
proof -
  have "lenFactor 1 (lowSeed * 1.71 + 1) = 0.67"
    using sin_lowSeed by (simp add: lenFactor_def seededRandom_def)
  moreover have "(1::nat) < maxDepth" by (simp add: maxDepth_def)
  moreover have "(0::nat) < maxDepth" by (simp add: maxDepth_def)
  ultimately show ?thesis
    using lowSeed_range by (simp add: createBranch_inner Let_def)
qed

subsection \<open>Determinism\<close>

lemma shape_createBranch:
  "shapeOf (fst (createBranch d len ang sd w)) = shapeOf (fst (createBranch d len ang sd w'))"
proof (induction "maxDepth - d" arbitrary: d len ang sd w w')
  case 0
  then have "maxDepth \<le> d" by simp
  then show ?case
    by (simp add: createBranch_leaf newBranch_def Math_random_def Let_def)
next
  case (Suc k)
  then have d: "d < maxDepth" and k: "k = maxDepth - (d + 1)" by simp_all
  have root: "shapeOf (Branch (fst (newBranch d len ang sd w)) cs)
                = shapeOf (Branch (fst (newBranch d len ang sd w')) cs')"
    if "map shapeOf cs = map shapeOf cs'" for cs cs'
    using that by (simp add: newBranch_def Math_random_def Let_def)
  show ?case
    using Suc.hyps(1) [OF k]
    apply (simp only: createBranch_inner [OF d] Let_def)
    apply (simp only: if_distrib [of fst] fst_conv split: if_splits)
    apply (intro conjI impI root)
    apply simp_all
    done
qed

lemma length_nodes_countShape: "length (nodes t) = countShape (shapeOf t)"
  by (induction t rule: nodes.induct)
     (simp add: length_concat comp_def cong: map_cong)

text \<open>
  C1. Two calls of \<open>createBranch\<close> at depth 0 with the same length, angle and seed, from
  any two states of the id counter, of \<open>Math.random()\<close> and of the store, give trees
  with the same shape: node by node the same depth, length, angle, seed, base width,
  colour and prune length, and the same children in the same order; so also the same
  number of nodes.
\<close>

theorem generator_deterministic:
  "shapeOf (fst (createBranch 0 len ang sd w)) = shapeOf (fst (createBranch 0 len ang sd w'))
   \<and> length (nodes (fst (createBranch 0 len ang sd w)))
       = length (nodes (fst (createBranch 0 len ang sd w')))"
  using shape_createBranch [of 0 len ang sd w w'] by (simp add: length_nodes_countShape)

subsection \<open>The depth bound\<close>

lemma createBranch_nodes:
  "d \<le> maxDepth \<Longrightarrow>
   (\<forall>n \<in> set (nodes (fst (createBranch d len ang sd w))). nodeOk n)
   \<and> (\<exists>n \<in> set (nodes (fst (createBranch d len ang sd w))). depth (fieldsOf n) = maxDepth)"
proof (induction "maxDepth - d" arbitrary: d len ang sd w)
  case 0
  then have "maxDepth \<le> d" "d = maxDepth" by simp_all
  then show ?case
    by (simp add: createBranch_leaf nodeOk_def)
next
  case (Suc k)
  then have d: "d < maxDepth" and k: "k = maxDepth - (d + 1)" and d1: "d + 1 \<le> maxDepth"
    by simp_all
  note ih = Suc.hyps(1) [OF k d1]
  define nb where "nb = newBranch d len ang sd w"
  define ra where "ra = createBranch (d + 1) (len * lenFactor d sd) (ang + spread sd + lean sd) (sd * 1.71 + 1) (snd nb)"
  define rb where "rb = createBranch (d + 1) (len * lenFactor d sd) (ang - spread sd + lean sd) (sd * 1.71 + 2) (snd ra)"
  define rc where "rc = createBranch (d + 1) (len * (lenFactor d sd * 0.9)) (ang + variance sd) (sd * 1.71 + 3) (snd rb)"
  have a: "\<forall>n \<in> set (nodes (fst ra)). nodeOk n"
    "\<exists>n \<in> set (nodes (fst ra)). depth (fieldsOf n) = maxDepth"
    unfolding ra_def using ih by blast+
  have b: "\<forall>n \<in> set (nodes (fst rb)). nodeOk n"
    unfolding rb_def using ih by blast
  have c: "\<forall>n \<in> set (nodes (fst rc)). nodeOk n"
    unfolding rc_def using ih by blast
  have root: "nodeOk (Branch (fst nb) [fst ra, fst rb])"
    "nodeOk (Branch (fst nb) [fst ra, fst rb, fst rc])"
    using d by (simp_all add: nodeOk_def nb_def)
  have eq: "fst (createBranch d len ang sd w) =
      (if d > 1 \<and> seededRandom (sd + 4) > 0.58
       then Branch (fst nb) [fst ra, fst rb, fst rc] else Branch (fst nb) [fst ra, fst rb])"
    by (simp add: createBranch_inner [OF d] Let_def nb_def ra_def rb_def rc_def)
  show ?case
    unfolding eq using a b c root by auto
qed

text \<open>
  C2. In the tree that \<open>createBranch\<close> builds from depth 0, every node has a depth of
  at most \<open>maxDepth\<close>, a node at depth \<open>maxDepth\<close> has no children, a node at a smaller
  depth has exactly 2 or 3 children, and some node has depth \<open>maxDepth\<close>. (The tree is a
  value of a datatype, hence finite and rooted.)
\<close>

theorem depth_bound:
  "(\<forall>n \<in> set (nodes (fst (createBranch 0 len ang sd w))).
       depth (fieldsOf n) \<le> maxDepth
       \<and> (depth (fieldsOf n) = maxDepth \<longrightarrow> children n = [])
       \<and> (depth (fieldsOf n) < maxDepth \<longrightarrow> length (children n) = 2 \<or> length (children n) = 3))
   \<and> (\<exists>n \<in> set (nodes (fst (createBranch 0 len ang sd w))). depth (fieldsOf n) = maxDepth)"
  using createBranch_nodes [of 0 len ang sd w] by (simp add: nodeOk_def)

theorem depth_bound_witness:
  "fst (createBranch 0 100 0 42 heap0) \<in> set (nodes (fst (createBranch 0 100 0 42 heap0)))
   \<and> depth (fieldsOf (fst (createBranch 0 100 0 42 heap0))) < maxDepth
   \<and> (length (children (fst (createBranch 0 100 0 42 heap0))) = 2
        \<or> length (children (fst (createBranch 0 100 0 42 heap0))) = 3)
   \<and> (\<exists>n \<in> set (nodes (fst (createBranch 0 100 0 42 heap0))). depth (fieldsOf n) = maxDepth)"
proof -
  have m: "fst (createBranch 0 100 0 42 heap0) \<in> set (nodes (fst (createBranch 0 100 0 42 heap0)))"
    by (cases "fst (createBranch 0 100 0 42 heap0)") simp
  have z: "depth (fieldsOf (fst (createBranch 0 100 0 42 heap0))) < maxDepth"
    by (simp add: maxDepth_def)
  show ?thesis
    using m z depth_bound [of 100 0 42 heap0] by blast
qed

section \<open>Properties of the growth integrator\<close>

lemma frameDelta_range: "8 \<le> frameDelta time prev \<and> frameDelta time prev \<le> 120"
  by (simp add: frameDelta_def Let_def)




lemma advance_growth:
  "growth (advance time w) = easeGrowth (frameDelta time (lastTime w)) (targetGrowth w) (growth w)
   \<and> deltaMs (advance time w) = frameDelta time (lastTime w)
   \<and> lastTime (advance time w) = time"
  by (simp add: advance_def Let_def Math_random_def split: prod.splits)



section \<open>Frame conditions\<close>

lemma heapOnly_refl [simp]: "heapOnly w w"
  by (simp add: heapOnly_def)

lemma heapOnly_trans: "heapOnly w w' \<Longrightarrow> heapOnly w' w'' \<Longrightarrow> heapOnly w w''"
  by (simp add: heapOnly_def)

lemma heapOnly_world:
  fixes w w' :: world
  assumes "heapOnly w w'"
  shows "w' = w\<lparr>branchIdCounter := branchIdCounter w', random := random w', store := store w'\<rparr>"
  using assms by (cases w, cases w') (simp add: heapOnly_def)

lemma drawOnly_refl [simp]: "drawOnly w w"
  by (simp add: drawOnly_def)

lemma drawOnly_trans: "drawOnly w w' \<Longrightarrow> drawOnly w' w'' \<Longrightarrow> drawOnly w w''"
  by (cases w, cases w', cases w'') (simp add: drawOnly_def)



lemma newBranch_heapOnly: "heapOnly w (snd (newBranch d len ang sd w))"
  by (simp add: heapOnly_def newBranch_def Math_random_def Let_def)

lemma createBranch_heapOnly: "heapOnly w (snd (createBranch d len ang sd w))"
proof (induction "maxDepth - d" arbitrary: d len ang sd w)
  case 0
  then show ?case by (simp add: createBranch_leaf newBranch_heapOnly)
next
  case (Suc k)
  then have d: "d < maxDepth" and k: "k = maxDepth - (d + 1)" by simp_all
  note ih = Suc.hyps(1) [OF k]
  define nb where "nb = newBranch d len ang sd w"
  define ra where "ra = createBranch (d + 1) (len * lenFactor d sd) (ang + spread sd + lean sd) (sd * 1.71 + 1) (snd nb)"
  define rb where "rb = createBranch (d + 1) (len * lenFactor d sd) (ang - spread sd + lean sd) (sd * 1.71 + 2) (snd ra)"
  define rc where "rc = createBranch (d + 1) (len * (lenFactor d sd * 0.9)) (ang + variance sd) (sd * 1.71 + 3) (snd rb)"
  have a: "heapOnly w (snd ra)"
    unfolding ra_def nb_def by (rule heapOnly_trans [OF newBranch_heapOnly ih])
  have b: "heapOnly w (snd rb)"
    unfolding rb_def by (rule heapOnly_trans [OF a ih])
  have c: "heapOnly w (snd rc)"
    unfolding rc_def by (rule heapOnly_trans [OF b ih])
  have eq: "snd (createBranch d len ang sd w) =
      (if d > 1 \<and> seededRandom (sd + 4) > 0.58 then snd rc else snd rb)"
    by (simp only: createBranch_inner [OF d] Let_def nb_def ra_def rb_def rc_def if_distrib [of snd] snd_conv)
  show ?case
    unfolding eq using b c by simp
qed

lemma buildTree_heapOnly: "heapOnly w (snd (buildTree w))"
proof -
  have "heapOnly w (snd (Math_random (w\<lparr>branchIdCounter := 0\<rparr>)))"
    by (simp add: heapOnly_def Math_random_def)
  then have "heapOnly w (snd (createBranch 0 (min (width w) (height w) * 0.25) 0
       (fst (Math_random (w\<lparr>branchIdCounter := 0\<rparr>)) * 1000) (snd (Math_random (w\<lparr>branchIdCounter := 0\<rparr>)))))"
    by (rule heapOnly_trans [OF _ createBranch_heapOnly])
  then show ?thesis
    by (simp add: buildTree_def Let_def case_prod_beta)
qed


lemma drawOnly_updates [simp]:
  "drawOnly w (w\<lparr>store := st\<rparr>)"
  "drawOnly w (w\<lparr>random := rn\<rparr>)"
  "drawOnly w (w\<lparr>fruitsRipened := fr\<rparr>)"
  "drawOnly w (w\<lparr>branchSegments := sg\<rparr>)"
  by (cases w; simp add: drawOnly_def)+

lemma drawOnly_fields:
  assumes "drawOnly w w'"
  shows "lifeStage w' = lifeStage w" "stageTimer w' = stageTimer w" "growth w' = growth w"
    "targetGrowth w' = targetGrowth w" "saplings w' = saplings w" "tree w' = tree w"
    "sawState w' = sawState w" "deltaMs w' = deltaMs w" "hydration w' = hydration w"
    "regenCountdown w' = regenCountdown w" "wind w' = wind w" "width w' = width w"
    "height w' = height w" "branchIdCounter w' = branchIdCounter w" "lastTime w' = lastTime w"
  by (subst assms [unfolded drawOnly_def], simp)+

lemma ripenFruit_drawOnly: "drawOnly w (snd (ripenFruit f w))"
  by (simp add: ripenFruit_def Let_def)

lemma ripenFruits_Cons:
  "ripenFruits (f # fs) w =
     (fst (ripenFruit f w) # fst (ripenFruits fs (snd (ripenFruit f w))),
      snd (ripenFruits fs (snd (ripenFruit f w))))"
  by (simp add: case_prod_beta)

lemma ripenFruits_drawOnly: "drawOnly w (snd (ripenFruits fs w))"
proof (induction fs arbitrary: w)
  case Nil
  show ?case by simp
next
  case (Cons f fs)
  show ?case
    unfolding ripenFruits_Cons snd_conv
    by (rule drawOnly_trans [OF ripenFruit_drawOnly Cons])
qed

lemma makeFruits_Suc:
  "makeFruits sd idx (Suc n) w =
     (fst (newFruit sd idx w) # fst (makeFruits sd (Suc idx) n (snd (newFruit sd idx w))),
      snd (makeFruits sd (Suc idx) n (snd (newFruit sd idx w))))"
  by (simp add: case_prod_beta)

lemma newFruit_drawOnly: "drawOnly w (snd (newFruit sd idx w))"
  by (simp add: newFruit_def Math_random_def case_prod_beta)

lemma makeFruits_drawOnly: "drawOnly w (snd (makeFruits sd idx n w))"
proof (induction n arbitrary: w idx)
  case 0
  show ?case by simp
next
  case (Suc n)
  show ?case
    unfolding makeFruits_Suc snd_conv
    by (rule drawOnly_trans [OF newFruit_drawOnly Suc])
qed

lemma drawFruit_drawOnly: "drawOnly w (drawFruit p w)"
proof -
  define r where "r = (case fruits (store w ! ref p) of
                 None \<Rightarrow> makeFruits (seed p) 0 (if seededRandom (seed p + 40) > 0.65 then 2 else 1) w
               | Some fs \<Rightarrow> (fs, w))"
  have a: "drawOnly w (snd r)"
    unfolding r_def by (cases "fruits (store w ! ref p)") (simp_all add: makeFruits_drawOnly)
  have b: "drawOnly w (snd (ripenFruits (fst r) (snd r)))"
    by (rule drawOnly_trans [OF a ripenFruits_drawOnly])
  have c: "drawOnly w ((snd (ripenFruits (fst r) (snd r)))\<lparr>store := st\<rparr>)" for st
    by (rule drawOnly_trans [OF b]) simp
  show ?thesis
    using c by (simp add: drawFruit_def case_prod_beta r_def [symmetric])
qed

lemma fold_drawOnly:
  assumes "\<And>c v. c \<in> set cs \<Longrightarrow> drawOnly v (f c v)"
  shows "drawOnly w (fold f cs w)"
  using assms
proof (induction cs arbitrary: w)
  case Nil
  show ?case by simp
next
  case (Cons c cs)
  have "drawOnly w (f c w)" using Cons.prems by simp
  moreover have "drawOnly (f c w) (fold f cs (f c w))" using Cons by simp
  ultimately show ?case by (simp only: fold_simps) (rule drawOnly_trans)
qed


lemma drawBranch_drawOnly: "drawOnly w (drawBranch b time pa sx sy w)"
proof (induction b arbitrary: time pa sx sy w)
  case (Branch p cs)
  define w1 where "w1 = (if pruned (store w ! ref p)
                         then w\<lparr>store := (store w)[ref p := (store w ! ref p)\<lparr>pruned := False\<rparr>]\<rparr>
                         else w)"
  have a: "drawOnly w (w1\<lparr>branchSegments := sg\<rparr>)" for sg
  proof -
    have "drawOnly w w1" by (simp add: w1_def)
    then show ?thesis by (rule drawOnly_trans) simp
  qed
  have f: "drawOnly w (drawFruit p (w1\<lparr>branchSegments := sg\<rparr>))" for sg
    by (rule drawOnly_trans [OF a drawFruit_drawOnly])
  have c: "drawOnly w (fold (\<lambda>child. drawBranch child time ang ex ey) cs (w1\<lparr>branchSegments := sg\<rparr>))"
    for sg ang ex ey
    by (rule drawOnly_trans [OF a fold_drawOnly]) (rule Branch)
  show ?case
    using a f c by (simp add: drawBranch.simps Let_def w1_def [symmetric])
qed

lemma drawTree_drawOnly: "drawOnly w (drawTree time w)"
proof (cases "tree w")
  case None
  then show ?thesis by (simp add: drawTree_def)
next
  case (Some t)
  have "drawOnly w (w\<lparr>branchSegments := []\<rparr>)" by simp
  then have "drawOnly w (drawBranch t time 0 (width w / 2) (height w - 60) (w\<lparr>branchSegments := []\<rparr>))"
    by (rule drawOnly_trans [OF _ drawBranch_drawOnly])
  then show ?thesis using Some by (simp add: drawTree_def)
qed



section \<open>Properties of the sapling cycle and of the state machine\<close>

lemma buildTree_frame:
  "snd (buildTree w) = w\<lparr>branchIdCounter := branchIdCounter (snd (buildTree w)),
        random := random (snd (buildTree w)), store := store (snd (buildTree w))\<rparr>"
  by (rule heapOnly_world [OF buildTree_heapOnly])

lemma buildTree_fields [simp]:
  "lifeStage (snd (buildTree w)) = lifeStage w"
  "stageTimer (snd (buildTree w)) = stageTimer w"
  "regenCountdown (snd (buildTree w)) = regenCountdown w"
  "fruitsRipened (snd (buildTree w)) = fruitsRipened w"
  "saplings (snd (buildTree w)) = saplings w"
  "growth (snd (buildTree w)) = growth w"
  "targetGrowth (snd (buildTree w)) = targetGrowth w"
  "sawState (snd (buildTree w)) = sawState w"
  "width (snd (buildTree w)) = width w"
  "height (snd (buildTree w)) = height w"
  "branchSegments (snd (buildTree w)) = branchSegments w"
  "hydration (snd (buildTree w)) = hydration w"
  "deltaMs (snd (buildTree w)) = deltaMs w"
  "lastTime (snd (buildTree w)) = lastTime w"
  "tree (snd (buildTree w)) = tree w"
  by (subst buildTree_frame, simp)+

lemma newSapling_frame: "snd (newSapling w) = w\<lparr>random := random (snd (newSapling w))\<rparr>"
  by (simp add: newSapling_def Let_def Math_random_def case_prod_beta)

lemma makeSaplings_Suc:
  "makeSaplings (Suc n) w =
     (fst (newSapling w) # fst (makeSaplings n (snd (newSapling w))),
      snd (makeSaplings n (snd (newSapling w))))"
  by (simp add: case_prod_beta)

lemma makeSaplings_frame: "snd (makeSaplings n w) = w\<lparr>random := random (snd (makeSaplings n w))\<rparr>"
proof (induction n arbitrary: w)
  case 0
  show ?case by simp
next
  case (Suc n)
  show ?case
    unfolding makeSaplings_Suc snd_conv
    by (subst Suc, subst newSapling_frame) simp
qed

lemma makeSaplings_length [simp]: "length (fst (makeSaplings n w)) = n"
  by (induction n arbitrary: w) (simp_all add: makeSaplings_Suc del: makeSaplings.simps(2))

lemma saplingCount_ge: "2 \<le> saplingCount r b"
  by (simp add: saplingCount_def saplingMin_def Let_def)

lemma spawnSaplings_frame:
  "spawnSaplings w =
     w\<lparr>random := random (spawnSaplings w),
       fruitsRipened := max 0 (fruitsRipened w - fruitBonus (fruitsRipened w) * 3),
       saplings := fst (makeSaplings (nat (saplingCount (random w 0) (fruitBonus (fruitsRipened w))))
          (w\<lparr>random := (\<lambda>i. random w (Suc i)),
             fruitsRipened := max 0 (fruitsRipened w - fruitBonus (fruitsRipened w) * 3)\<rparr>))\<rparr>"
  by (simp add: spawnSaplings_def Let_def Math_random_def case_prod_beta)
     (subst makeSaplings_frame, simp)

lemma spawnSaplings_fields [simp]:
  "lifeStage (spawnSaplings w) = lifeStage w"
  "stageTimer (spawnSaplings w) = stageTimer w"
  "regenCountdown (spawnSaplings w) = regenCountdown w"
  "growth (spawnSaplings w) = growth w"
  "targetGrowth (spawnSaplings w) = targetGrowth w"
  by (subst spawnSaplings_frame, simp)+

lemma spawnSaplings_nonempty: "saplings (spawnSaplings w) \<noteq> []"
proof -
  have "length (saplings (spawnSaplings w)) = nat (saplingCount (random w 0) (fruitBonus (fruitsRipened w)))"
    by (subst spawnSaplings_frame) simp
  then show ?thesis
    using saplingCount_ge [of "random w 0" "fruitBonus (fruitsRipened w)"] by auto
qed

lemma stageSwitch_stage:
  assumes inv: "lifeStage w = Rebirth \<longrightarrow> saplings w \<noteq> []"
  shows "lifeStage (stageSwitch delta w) = (if exitCondition delta w then successor (lifeStage w) else lifeStage w)
       \<and> stageTimer (stageSwitch delta w) = (if exitCondition delta w then 0 else stageTimer w)"
proof (cases "lifeStage w")
  case SeedFall
  then show ?thesis
    by (simp add: stageSwitch_def exitCondition_def setStage_def Let_def)
next
  case Rebirth
  then show ?thesis
    using inv by (simp add: stageSwitch_def exitCondition_def setStage_def Let_def case_prod_beta)
next
  case Fruit
  then show ?thesis
    by (simp add: stageSwitch_def exitCondition_def setStage_def Let_def Math_random_def)
qed (simp_all add: stageSwitch_def exitCondition_def setStage_def)

lemma updateLifeStage_stage:
  "lifeStage (updateLifeStage delta w) = lifeStage (stageSwitch delta w)
   \<and> stageTimer (updateLifeStage delta w) = stageTimer (stageSwitch delta w)"
  by (simp add: updateLifeStage_def Let_def)


lemma advance_fields [simp]:
  "lifeStage (advance time w) = lifeStage w"
  "saplings (advance time w) = saplings w"
  "stageTimer (advance time w) = stageTimer w + frameDelta time (lastTime w)"
  "deltaMs (advance time w) = frameDelta time (lastTime w)"
  "fruitsRipened (advance time w) = fruitsRipened w"
  by (simp_all add: advance_def Let_def Math_random_def case_prod_beta)

lemma updateSaplings_fields [simp]:
  "lifeStage (updateSaplings delta w) = lifeStage w"
  "stageTimer (updateSaplings delta w) = stageTimer w"
  "fruitsRipened (updateSaplings delta w) = fruitsRipened w"
  "length (saplings (updateSaplings delta w)) = length (saplings w)"
  by (simp_all add: updateSaplings_def)

lemma performSawCut_fields [simp]:
  "lifeStage (performSawCut now w) = lifeStage w"
  "stageTimer (performSawCut now w) = stageTimer w"
  "saplings (performSawCut now w) = saplings w"
  "fruitsRipened (performSawCut now w) = fruitsRipened w"
  by (simp_all add: performSawCut_def Let_def Math_random_def split: option.splits)

lemma resize_fields [simp]:
  "lifeStage (resize wd ht w) = lifeStage w"
  "stageTimer (resize wd ht w) = stageTimer w"
  "saplings (resize wd ht w) = saplings w"
  "fruitsRipened (resize wd ht w) = fruitsRipened w"
  by (simp_all add: resize_def case_prod_beta)

lemma other_events:
  assumes "\<And>time. e \<noteq> Frame time"
  shows "lifeStage (fire e w) = lifeStage w \<and> stageTimer (fire e w) = stageTimer w
         \<and> saplings (fire e w) = saplings w"
  using assms
  by (cases e)
     (auto simp add: water_def growthPulse_def pointerdown_def pointermove_def pointerup_def
        updatePointer_def Let_def Math_random_def)

lemma stageSwitch_stageInv: "stageInv (stageSwitch delta w)"
proof (cases "lifeStage w")
  case SeedFall
  then show ?thesis
    by (simp add: stageInv_def stageSwitch_def setStage_def Let_def spawnSaplings_nonempty)
next
  case Rebirth
  then show ?thesis
    by (simp add: stageInv_def stageSwitch_def setStage_def Let_def case_prod_beta spawnSaplings_nonempty)
next
  case Fruit
  then show ?thesis
    by (simp add: stageInv_def stageSwitch_def setStage_def Let_def Math_random_def)
qed (simp_all add: stageInv_def stageSwitch_def setStage_def)

lemma updateLifeStage_stageInv: "stageInv (updateLifeStage delta w)"
  using stageSwitch_stageInv [of delta w]
  by (simp add: updateLifeStage_def Let_def stageInv_def)

lemma loop_stageInv: "stageInv (loop time w)"
proof -
  define w9 where "w9 = updateLifeStage (deltaMs (advance time w)) (advance time w)"
  have a: "stageInv w9" unfolding w9_def by (rule updateLifeStage_stageInv)
  have b: "stageInv (updateSaplings (deltaMs w9) w9)"
    using a unfolding stageInv_def
    by (metis length_0_conv updateSaplings_fields(1) updateSaplings_fields(4))
  have e: "loop time w = drawTree time (updateSaplings (deltaMs w9) w9)"
    by (simp only: loop_def Let_def w9_def)
  show ?thesis
    unfolding e stageInv_def
    using b drawOnly_fields(1,5) [OF drawTree_drawOnly, of time "updateSaplings (deltaMs w9) w9"]
    by (simp add: stageInv_def)
qed

lemma reachable_stageInv: "reachable w \<Longrightarrow> stageInv w"
proof (induction rule: reachable.induct)
  case (boot rnd t0 wd ht)
  show ?case by (simp add: stageInv_def boot_def)
next
  case (fire w e)
  show ?case
  proof (cases e)
    case (Frame time)
    then show ?thesis by (simp add: loop_stageInv)
  qed (use fire other_events [of e w] in \<open>simp_all add: stageInv_def\<close>)
qed

lemma loop_stage:
  assumes "stageInv w"
  shows "lifeStage (loop time w)
           = (if exitCondition (frameDelta time (lastTime w)) (advance time w)
              then successor (lifeStage w) else lifeStage w)
       \<and> stageTimer (loop time w)
           = (if exitCondition (frameDelta time (lastTime w)) (advance time w)
              then 0 else stageTimer w + frameDelta time (lastTime w))"
proof -
  define w8 where "w8 = advance time w"
  define w9 where "w9 = updateLifeStage (deltaMs w8) w8"
  have i: "lifeStage w8 = Rebirth \<longrightarrow> saplings w8 \<noteq> []"
    using assms by (simp add: w8_def stageInv_def)
  have d: "drawOnly (updateSaplings (deltaMs w9) w9) (loop time w)"
    unfolding loop_def Let_def w9_def w8_def by (rule drawTree_drawOnly)
  show ?thesis
    using stageSwitch_stage [OF i, of "deltaMs w8"] updateLifeStage_stage [of "deltaMs w8" w8]
    by (simp add: drawOnly_fields [OF d] w9_def) (simp add: w8_def)
qed

text \<open>
  C4. From every reachable state, an event other than a frame leaves the life stage and
  \<open>stageTimer\<close> as they are. A frame either leaves the stage as it is (and adds the
  elapsed time to \<open>stageTimer\<close>) or, exactly when the exit condition of the current
  stage's row of the table holds, moves to the one stage that follows it in the table
  and sets \<open>stageTimer\<close> to 0.
\<close>

theorem stage_transitions:
  assumes "reachable w"
  shows "case e of
           Frame time \<Rightarrow>
             lifeStage (fire e w)
               = (if exitCondition (frameDelta time (lastTime w)) (advance time w)
                  then successor (lifeStage w) else lifeStage w)
             \<and> stageTimer (fire e w)
               = (if exitCondition (frameDelta time (lastTime w)) (advance time w)
                  then 0 else stageTimer w + frameDelta time (lastTime w))
         | _ \<Rightarrow> lifeStage (fire e w) = lifeStage w \<and> stageTimer (fire e w) = stageTimer w"
proof (cases e)
  case (Frame time)
  then show ?thesis
    using loop_stage [OF reachable_stageInv [OF assms], of time] by simp
qed (use other_events [of e w] in simp_all)

theorem stage_transitions_witness:
  "reachable (boot (\<lambda>i. 1 / 2) 0 800 600)
   \<and> lifeStage (boot (\<lambda>i. 1 / 2) 0 800 600) = Seed
   \<and> lifeStage (fire (Frame 16) (boot (\<lambda>i. 1 / 2) 0 800 600)) = Seed
   \<and> stageTimer (fire (Frame 16) (boot (\<lambda>i. 1 / 2) 0 800 600)) = 16
   \<and> lifeStage (fire Water (boot (\<lambda>i. 1 / 2) 0 800 600)) = Seed
   \<and> stageTimer (fire Water (boot (\<lambda>i. 1 / 2) 0 800 600)) = 0"
proof -
  define B where "B = boot (\<lambda>i. 1 / 2) 0 800 600"
  have r: "reachable B"
    unfolding B_def by (rule reachable.boot) simp
  have f: "lifeStage B = Seed" "stageTimer B = 0" "lastTime B = 0" "growth B = 0.015"
    "targetGrowth B = 0.08"
    by (simp_all add: B_def boot_def resize_def case_prod_beta)
  have d: "frameDelta 16 0 = 16" by (simp add: frameDelta_def)
  have g: "growth (advance 16 B) = easeGrowth 16 0.08 0.015"
    using advance_growth [of 16 B] by (simp add: f d)
  have x: "\<not> exitCondition 16 (advance 16 B)"
    by (simp add: exitCondition_def f g easeGrowth_def clamp_def baseGrowthSpeed_def Let_def)
  have "lifeStage (fire (Frame 16) B) = Seed \<and> stageTimer (fire (Frame 16) B) = 16"
    using stage_transitions [OF r, of "Frame 16"] x by (simp add: f d)
  moreover have "lifeStage (fire Water B) = Seed \<and> stageTimer (fire Water B) = 0"
    using stage_transitions [OF r, of Water] by (simp add: f)
  ultimately show ?thesis using r f unfolding B_def by simp
qed

subsection \<open>Spawning saplings\<close>

lemma newSapling_growth [simp]: "sap_growth (fst (newSapling w)) = 0.02"
  by (simp add: newSapling_def Let_def case_prod_beta)






section \<open>Allocation of branches\<close>

lemma newBranch_store: "store (snd (newBranch d len ang sd w)) = store w @ replicate 1 freshCell"
  by (simp add: newBranch_def Math_random_def Let_def freshCell_def)

lemma createBranch_store:
  "\<exists>k. 0 < k \<and> store (snd (createBranch d len ang sd w)) = store w @ replicate k freshCell"
proof (induction "maxDepth - d" arbitrary: d len ang sd w)
  case 0
  then show ?case
    using newBranch_store [of d len ang sd w] by (auto simp add: createBranch_leaf)
next
  case (Suc k)
  then have d: "d < maxDepth" and k: "k = maxDepth - (d + 1)" by simp_all
  note ih = Suc.hyps(1) [OF k]
  define nb where "nb = newBranch d len ang sd w"
  define ra where "ra = createBranch (d + 1) (len * lenFactor d sd) (ang + spread sd + lean sd) (sd * 1.71 + 1) (snd nb)"
  define rb where "rb = createBranch (d + 1) (len * lenFactor d sd) (ang - spread sd + lean sd) (sd * 1.71 + 2) (snd ra)"
  define rc where "rc = createBranch (d + 1) (len * (lenFactor d sd * 0.9)) (ang + variance sd) (sd * 1.71 + 3) (snd rb)"
  have n: "store (snd nb) = store w @ replicate 1 freshCell"
    unfolding nb_def by (rule newBranch_store)
  obtain ka where a: "store (snd ra) = store (snd nb) @ replicate ka freshCell"
    unfolding ra_def using ih by blast
  obtain kb where b: "store (snd rb) = store (snd ra) @ replicate kb freshCell"
    unfolding rb_def using ih by blast
  obtain kc where c: "store (snd rc) = store (snd rb) @ replicate kc freshCell"
    unfolding rc_def using ih by blast
  have b': "store (snd rb) = store w @ replicate (1 + ka + kb) freshCell"
    by (simp only: b a n append_assoc replicate_add)
  have c': "store (snd rc) = store w @ replicate (1 + ka + kb + kc) freshCell"
    by (simp only: c b a n append_assoc replicate_add)
  define third where "third \<longleftrightarrow> d > 1 \<and> seededRandom (sd + 4) > 0.58"
  have eq: "snd (createBranch d len ang sd w) = (if third then snd rc else snd rb)"
    by (simp only: createBranch_inner [OF d] Let_def nb_def ra_def rb_def rc_def third_def
          if_distrib [of snd] snd_conv)
  show ?case
  proof (cases third)
    case True
    then have "store (snd (createBranch d len ang sd w)) = store w @ replicate (1 + ka + kb + kc) freshCell"
      by (simp only: eq if_True c')
    then show ?thesis by (intro exI [of _ "1 + ka + kb + kc"]) simp
  next
    case False
    then have "store (snd (createBranch d len ang sd w)) = store w @ replicate (1 + ka + kb) freshCell"
      by (simp only: eq if_False b')
    then show ?thesis by (intro exI [of _ "1 + ka + kb"]) simp
  qed
qed

lemma createBranch_length: "length (store w) < length (store (snd (createBranch d len ang sd w)))"
  using createBranch_store [of d len ang sd w] by auto

lemma createBranch_refs:
  "\<forall>n \<in> set (nodes (fst (createBranch d len ang sd w))).
     length (store w) \<le> ref (fieldsOf n)
     \<and> ref (fieldsOf n) < length (store (snd (createBranch d len ang sd w)))"
proof (induction "maxDepth - d" arbitrary: d len ang sd w)
  case 0
  then show ?case
    using newBranch_store [of d len ang sd w] by (simp add: createBranch_leaf)
next
  case (Suc k)
  then have d: "d < maxDepth" and k: "k = maxDepth - (d + 1)" by simp_all
  note ih = Suc.hyps(1) [OF k]
  define nb where "nb = newBranch d len ang sd w"
  define ra where "ra = createBranch (d + 1) (len * lenFactor d sd) (ang + spread sd + lean sd) (sd * 1.71 + 1) (snd nb)"
  define rb where "rb = createBranch (d + 1) (len * lenFactor d sd) (ang - spread sd + lean sd) (sd * 1.71 + 2) (snd ra)"
  define rc where "rc = createBranch (d + 1) (len * (lenFactor d sd * 0.9)) (ang + variance sd) (sd * 1.71 + 3) (snd rb)"
  have l0: "length (store w) < length (store (snd nb))"
    unfolding nb_def by (simp add: newBranch_store)
  have l1: "length (store (snd nb)) < length (store (snd ra))"
    unfolding ra_def by (rule createBranch_length)
  have l2: "length (store (snd ra)) < length (store (snd rb))"
    unfolding rb_def by (rule createBranch_length)
  have l3: "length (store (snd rb)) < length (store (snd rc))"
    unfolding rc_def by (rule createBranch_length)
  have a: "\<forall>n \<in> set (nodes (fst ra)). length (store (snd nb)) \<le> ref (fieldsOf n) \<and> ref (fieldsOf n) < length (store (snd ra))"
    unfolding ra_def by (rule ih)
  have b: "\<forall>n \<in> set (nodes (fst rb)). length (store (snd ra)) \<le> ref (fieldsOf n) \<and> ref (fieldsOf n) < length (store (snd rb))"
    unfolding rb_def by (rule ih)
  have c: "\<forall>n \<in> set (nodes (fst rc)). length (store (snd rb)) \<le> ref (fieldsOf n) \<and> ref (fieldsOf n) < length (store (snd rc))"
    unfolding rc_def by (rule ih)
  have r: "ref (fst nb) = length (store w)" by (simp add: nb_def)
  have eq: "createBranch d len ang sd w =
      (if d > 1 \<and> seededRandom (sd + 4) > 0.58
       then (Branch (fst nb) [fst ra, fst rb, fst rc], snd rc)
       else (Branch (fst nb) [fst ra, fst rb], snd rb))"
    by (simp only: createBranch_inner [OF d] Let_def nb_def ra_def rb_def rc_def)
  show ?case
    unfolding eq using a b c r l0 l1 l2 l3 by (auto simp add: le_less_trans less_imp_le)
qed

section \<open>Properties of the saw\<close>

lemma sawScanStep_dist:
  "cuttable w s \<Longrightarrow>
   sawScanStep w s acc =
     (if sawDist w s < bestDist acc
      then \<lparr> chosen = Some s, bestDist = sawDist w s,
             chosenPoint = Some (closestPoint (x1 s) (y1 s) (x2 s) (y2 s) (saw_x (sawState w)) (saw_y (sawState w))) \<rparr>
      else acc)"
  by (simp add: sawScanStep_def sawDist_def segDist_def Let_def case_prod_beta)

lemma scanned_step:
  assumes "scanned w seen acc"
  shows "scanned w (seen @ [s]) (sawScanStep w s acc)"
proof (cases "cuttable w s")
  case False
  then have "sawScanStep w s acc = acc" by (simp add: sawScanStep_def)
  then show ?thesis
    using assms False by (auto simp add: scanned_def split: option.splits)
next
  case True
  show ?thesis
  proof (cases "sawDist w s < bestDist acc")
    case True
    then show ?thesis
      using assms \<open>cuttable w s\<close>
      by (auto simp add: scanned_def sawScanStep_dist split: option.splits)
  next
    case False
    then show ?thesis
      using assms \<open>cuttable w s\<close>
      by (auto simp add: scanned_def sawScanStep_dist split: option.splits)
  qed
qed

lemma scanned_fold:
  "scanned w seen acc \<Longrightarrow> scanned w (seen @ segs) (fold (sawScanStep w) segs acc)"
proof (induction segs arbitrary: seen acc)
  case Nil
  then show ?case by simp
next
  case (Cons s segs)
  from Cons.IH [OF scanned_step [OF Cons.prems, of s]] show ?case by simp
qed

lemma scanned_sawScan: "scanned w (branchSegments w) (sawScan w)"
proof -
  have "scanned w [] \<lparr> chosen = None, bestDist = sawRadius, chosenPoint = None \<rparr>"
    by (simp add: scanned_def)
  from scanned_fold [OF this, of "branchSegments w"] show ?thesis
    by (simp add: sawScan_def)
qed


lemma performSawCut_miss:
  assumes "\<forall>s \<in> set (branchSegments w). cuttable w s \<longrightarrow> sawRadius \<le> sawDist w s"
  shows "performSawCut now w = w"
proof -
  have "chosen (sawScan w) = None"
    using scanned_sawScan [of w] assms
    by (cases "chosen (sawScan w)") (auto simp add: scanned_def)
  then show ?thesis by (simp add: performSawCut_def)
qed

lemma performSawCut_hit:
  assumes cool: "\<not> now - lastCut (sawState w) < sawCooldown"
    and near: "\<exists>s \<in> set (branchSegments w). cuttable w s \<and> sawDist w s < sawRadius"
  shows "\<exists>s \<in> set (branchSegments w).
           cuttable w s \<and> sawDist w s < sawRadius
           \<and> (\<forall>s' \<in> set (branchSegments w). cuttable w s' \<longrightarrow> sawDist w s \<le> sawDist w s')
           \<and> performSawCut now w =
               w\<lparr>random := (\<lambda>i. random w (Suc i)),
                 store := (store w)[ref (fieldsOf (seg_branch s)) :=
                            (store w ! ref (fieldsOf (seg_branch s)))
                              \<lparr>pruned := True, regrowAt := now + 18000 + random w 0 * 14000\<rparr>],
                 sawState := (sawState w)\<lparr>lastCut := now\<rparr>\<rparr>"
proof -
  from near have ne: "branchSegments w \<noteq> []" by auto
  have "chosen (sawScan w) \<noteq> None"
  proof
    assume "chosen (sawScan w) = None"
    with scanned_sawScan [of w]
    have "\<forall>s \<in> set (branchSegments w). cuttable w s \<longrightarrow> sawRadius \<le> sawDist w s"
      by (simp add: scanned_def)
    with near show False by fastforce
  qed
  then obtain s where s: "chosen (sawScan w) = Some s" by auto
  with scanned_sawScan [of w] obtain pt where pt: "chosenPoint (sawScan w) = Some pt"
    and p: "s \<in> set (branchSegments w)" "cuttable w s" "sawDist w s < sawRadius"
      "\<forall>s' \<in> set (branchSegments w). cuttable w s' \<longrightarrow> sawDist w s \<le> sawDist w s'"
    by (auto simp add: scanned_def)
  have "performSawCut now w =
               w\<lparr>random := (\<lambda>i. random w (Suc i)),
                 store := (store w)[ref (fieldsOf (seg_branch s)) :=
                            (store w ! ref (fieldsOf (seg_branch s)))
                              \<lparr>pruned := True, regrowAt := now + 18000 + random w 0 * 14000\<rparr>],
                 sawState := (sawState w)\<lparr>lastCut := now\<rparr>\<rparr>"
    using ne cool s pt
    by (cases "ref (fieldsOf (seg_branch s)) < length (store w)")
       (simp_all add: performSawCut_def Let_def Math_random_def list_update_beyond)
  with p show ?thesis by blast
qed


lemma closestPoint_param:
  "\<exists>t. 0 \<le> t \<and> t \<le> 1
       \<and> closestPoint xa ya xb yb px py = (xa + (xb - xa) * t, ya + (yb - ya) * t)"
  by (rule exI [of _ "clamp (((px - xa) * (xb - xa) + (py - ya) * (yb - ya))
        / (if (xb - xa) * (xb - xa) + (yb - ya) * (yb - ya) = 0 then 1
           else (xb - xa) * (xb - xa) + (yb - ya) * (yb - ya))) 0 1"])
     (simp add: closestPoint_def Let_def clamp_def)

lemma quad_least:
  fixes L c t :: real
  assumes L: "0 < L" and t: "0 \<le> t" "t \<le> 1"
  defines "u \<equiv> clamp (c / L) 0 1"
  shows "L * u * u - 2 * c * u \<le> L * t * t - 2 * c * t"
proof -
  have d: "(L * t * t - 2 * c * t) - (L * u * u - 2 * c * u) = (t - u) * (L * (t + u) - 2 * c)"
    by (simp add: algebra_simps)
  consider (lo) "c / L \<le> 0" | (mid) "0 < c / L" "c / L < 1" | (hi) "1 \<le> c / L" by linarith
  then have "0 \<le> (t - u) * (L * (t + u) - 2 * c)"
  proof cases
    case lo
    then have u: "u = 0" by (simp add: u_def clamp_def)
    from lo L have "c \<le> 0" by (simp add: divide_le_0_iff)
    moreover have "0 \<le> L * t" using L t by simp
    ultimately have "0 \<le> L * t - 2 * c" by linarith
    then show ?thesis using t u by simp
  next
    case mid
    then have u: "u = c / L" by (simp add: u_def clamp_def)
    then have c: "c = L * u" using L by simp
    have e: "(t - u) * (L * (t + u) - 2 * c) = L * ((t - u) * (t - u))"
      unfolding c by (simp add: algebra_simps)
    have "0 \<le> L * ((t - u) * (t - u))"
      by (rule mult_nonneg_nonneg [OF less_imp_le [OF L] zero_le_square])
    then show ?thesis by (simp only: e)
  next
    case hi
    then have u: "u = 1" by (simp add: u_def clamp_def)
    from hi L have "L \<le> c" by (simp add: le_divide_eq)
    then have a: "L * (t + 1) - 2 * c \<le> 0"
    proof -
      have "L * (t + 1) \<le> L * 2" using L t by (intro mult_left_mono) simp_all
      with \<open>L \<le> c\<close> show ?thesis by linarith
    qed
    have b: "t - 1 \<le> 0" using t by simp
    show ?thesis unfolding u by (rule mult_nonpos_nonpos [OF b a])
  qed
  with d show ?thesis by linarith
qed

lemma segDist_least:
  assumes t: "0 \<le> t" "t \<le> 1"
  shows "segDist s px py \<le> hypot (x1 s + (x2 s - x1 s) * t - px) (y1 s + (y2 s - y1 s) * t - py)"
proof -
  define dx where "dx = x2 s - x1 s"
  define dy where "dy = y2 s - y1 s"
  define ax where "ax = x1 s - px"
  define ay where "ay = y1 s - py"
  define L where "L = dx * dx + dy * dy"
  define c where "c = (px - x1 s) * dx + (py - y1 s) * dy"
  define u where "u = clamp (c / (if L = 0 then 1 else L)) 0 1"
  have cp: "closestPoint (x1 s) (y1 s) (x2 s) (y2 s) px py = (x1 s + dx * u, y1 s + dy * u)"
    by (simp only: closestPoint_def Let_def u_def c_def L_def dx_def dy_def)
  have r: "x1 s + dx * u - px = ax + dx * u" "y1 s + dy * u - py = ay + dy * u"
    by (simp_all add: ax_def ay_def)
  have sd: "segDist s px py = hypot (ax + dx * u) (ay + dy * u)"
    by (simp only: segDist_def cp prod.case r)
  have sq: "(ax + dx * v) * (ax + dx * v) + (ay + dy * v) * (ay + dy * v)
            = (ax * ax + ay * ay) + (L * v * v - 2 * c * v)" for v
    by (simp add: L_def c_def ax_def ay_def algebra_simps)
  have "L * u * u - 2 * c * u \<le> L * t * t - 2 * c * t"
  proof (cases "L = 0")
    case True
    then have "dx * dx = 0" "dy * dy = 0"
      unfolding L_def using sum_squares_eq_zero_iff [of dx dy] by simp_all
    then have "c = 0" by (simp add: c_def)
    with True show ?thesis by simp
  next
    case False
    have "0 \<le> L" by (simp add: L_def)
    with False have "0 < L" by simp
    from quad_least [OF this t, of c] False show ?thesis by (simp add: u_def)
  qed
  then have "(ax + dx * u) * (ax + dx * u) + (ay + dy * u) * (ay + dy * u)
           \<le> (ax + dx * t) * (ax + dx * t) + (ay + dy * t) * (ay + dy * t)"
    by (simp only: sq)
  then have "hypot (ax + dx * u) (ay + dy * u) \<le> hypot (ax + dx * t) (ay + dy * t)"
    by (simp add: hypot_def)
  moreover have "ax + dx * t = x1 s + (x2 s - x1 s) * t - px" "ay + dy * t = y1 s + (y2 s - y1 s) * t - py"
    by (simp_all add: ax_def ay_def dx_def dy_def)
  ultimately show ?thesis
    by (simp add: sd)
qed

text \<open>
  C5. A cut attempt at time \<open>now\<close> leaves the state as it is when
  \<open>now - lastCut < 140\<close>, and when no segment whose branch has \<open>depth > 0\<close> and is not
  pruned is closer to the pointer than the radius 28. Otherwise it picks, among those
  segments, one of least distance to the pointer, and the state changes in exactly
  three places: that branch's cell has \<open>pruned = true\<close> and
  \<open>regrowAt = now + 18000 + r * 14000\<close>, where \<open>r\<close> is the value of \<open>Math.random()\<close> (so the
  delay lies in \<open>[18000, 32000)\<close> when \<open>r\<close> lies in \<open>[0, 1)\<close>), \<open>lastCut = now\<close>, and the
  random stream has moved on. The distance is the least distance from the pointer to a
  point of the segment.
\<close>

theorem saw_cut:
  "(now - lastCut (sawState w) < sawCooldown \<longrightarrow> performSawCut now w = w)
   \<and> ((\<forall>s \<in> set (branchSegments w). cuttable w s \<longrightarrow> sawRadius \<le> sawDist w s)
        \<longrightarrow> performSawCut now w = w)
   \<and> (\<not> now - lastCut (sawState w) < sawCooldown
        \<and> (\<exists>s \<in> set (branchSegments w). cuttable w s \<and> sawDist w s < sawRadius)
      \<longrightarrow> (\<exists>s \<in> set (branchSegments w).
             depth (fieldsOf (seg_branch s)) > 0
             \<and> \<not> pruned (store w ! ref (fieldsOf (seg_branch s)))
             \<and> sawDist w s < sawRadius
             \<and> (\<forall>s' \<in> set (branchSegments w). cuttable w s' \<longrightarrow> sawDist w s \<le> sawDist w s')
             \<and> performSawCut now w =
                 w\<lparr>random := (\<lambda>i. random w (Suc i)),
                   store := (store w)[ref (fieldsOf (seg_branch s)) :=
                              (store w ! ref (fieldsOf (seg_branch s)))
                                \<lparr>pruned := True, regrowAt := now + 18000 + random w 0 * 14000\<rparr>],
                   sawState := (sawState w)\<lparr>lastCut := now\<rparr>\<rparr>
             \<and> lastCut (sawState (performSawCut now w)) = now
             \<and> (ref (fieldsOf (seg_branch s)) < length (store w)
                  \<longrightarrow> pruned (store (performSawCut now w) ! ref (fieldsOf (seg_branch s)))
                    \<and> regrowAt (store (performSawCut now w) ! ref (fieldsOf (seg_branch s)))
                        = now + 18000 + random w 0 * 14000
                    \<and> (0 \<le> random w 0 \<and> random w 0 < 1
                         \<longrightarrow> now + 18000 \<le> regrowAt (store (performSawCut now w) ! ref (fieldsOf (seg_branch s)))
                           \<and> regrowAt (store (performSawCut now w) ! ref (fieldsOf (seg_branch s)))
                               < now + 32000))))
   \<and> (\<forall>s t. 0 \<le> t \<and> t \<le> 1
        \<longrightarrow> sawDist w s \<le> hypot (x1 s + (x2 s - x1 s) * t - saw_x (sawState w))
                                 (y1 s + (y2 s - y1 s) * t - saw_y (sawState w)))
   \<and> (\<forall>s. \<exists>t. 0 \<le> t \<and> t \<le> 1
        \<and> sawDist w s = hypot (x1 s + (x2 s - x1 s) * t - saw_x (sawState w))
                               (y1 s + (y2 s - y1 s) * t - saw_y (sawState w)))"
proof (intro conjI impI allI)
  assume "now - lastCut (sawState w) < sawCooldown"
  then show "performSawCut now w = w" by (simp add: performSawCut_def)
next
  assume "\<forall>s \<in> set (branchSegments w). cuttable w s \<longrightarrow> sawRadius \<le> sawDist w s"
  then show "performSawCut now w = w" by (rule performSawCut_miss)
next
  assume a: "\<not> now - lastCut (sawState w) < sawCooldown
        \<and> (\<exists>s \<in> set (branchSegments w). cuttable w s \<and> sawDist w s < sawRadius)"
  from performSawCut_hit [of now w] a obtain s where s: "s \<in> set (branchSegments w)"
    "cuttable w s" "sawDist w s < sawRadius"
    "\<forall>s' \<in> set (branchSegments w). cuttable w s' \<longrightarrow> sawDist w s \<le> sawDist w s'"
    and e: "performSawCut now w =
               w\<lparr>random := (\<lambda>i. random w (Suc i)),
                 store := (store w)[ref (fieldsOf (seg_branch s)) :=
                            (store w ! ref (fieldsOf (seg_branch s)))
                              \<lparr>pruned := True, regrowAt := now + 18000 + random w 0 * 14000\<rparr>],
                 sawState := (sawState w)\<lparr>lastCut := now\<rparr>\<rparr>"
    by blast
  have c: "depth (fieldsOf (seg_branch s)) > 0" "\<not> pruned (store w ! ref (fieldsOf (seg_branch s)))"
    using s(2) by (simp_all add: cuttable_def)
  have l: "lastCut (sawState (performSawCut now w)) = now"
    by (subst e) simp
  have v: "pruned (store (performSawCut now w) ! ref (fieldsOf (seg_branch s)))
           \<and> regrowAt (store (performSawCut now w) ! ref (fieldsOf (seg_branch s)))
                = now + 18000 + random w 0 * 14000"
    if "ref (fieldsOf (seg_branch s)) < length (store w)"
    using that by (simp add: e)
  have b: "now + 18000 \<le> now + 18000 + random w 0 * 14000
           \<and> now + 18000 + random w 0 * 14000 < now + 32000"
    if "0 \<le> random w 0 \<and> random w 0 < 1"
    using that by simp
  show "\<exists>s \<in> set (branchSegments w).
             depth (fieldsOf (seg_branch s)) > 0
             \<and> \<not> pruned (store w ! ref (fieldsOf (seg_branch s)))
             \<and> sawDist w s < sawRadius
             \<and> (\<forall>s' \<in> set (branchSegments w). cuttable w s' \<longrightarrow> sawDist w s \<le> sawDist w s')
             \<and> performSawCut now w =
                 w\<lparr>random := (\<lambda>i. random w (Suc i)),
                   store := (store w)[ref (fieldsOf (seg_branch s)) :=
                              (store w ! ref (fieldsOf (seg_branch s)))
                                \<lparr>pruned := True, regrowAt := now + 18000 + random w 0 * 14000\<rparr>],
                   sawState := (sawState w)\<lparr>lastCut := now\<rparr>\<rparr>
             \<and> lastCut (sawState (performSawCut now w)) = now
             \<and> (ref (fieldsOf (seg_branch s)) < length (store w)
                  \<longrightarrow> pruned (store (performSawCut now w) ! ref (fieldsOf (seg_branch s)))
                    \<and> regrowAt (store (performSawCut now w) ! ref (fieldsOf (seg_branch s)))
                        = now + 18000 + random w 0 * 14000
                    \<and> (0 \<le> random w 0 \<and> random w 0 < 1
                         \<longrightarrow> now + 18000 \<le> regrowAt (store (performSawCut now w) ! ref (fieldsOf (seg_branch s)))
                           \<and> regrowAt (store (performSawCut now w) ! ref (fieldsOf (seg_branch s)))
                               < now + 32000))"
  proof (intro bexI [of _ s] conjI impI)
    show "s \<in> set (branchSegments w)" by (rule s(1))
    show "depth (fieldsOf (seg_branch s)) > 0" by (rule c(1))
    show "\<not> pruned (store w ! ref (fieldsOf (seg_branch s)))" by (rule c(2))
    show "sawDist w s < sawRadius" by (rule s(3))
    show "\<forall>s' \<in> set (branchSegments w). cuttable w s' \<longrightarrow> sawDist w s \<le> sawDist w s'"
      by (rule s(4))
    show "performSawCut now w =
                 w\<lparr>random := (\<lambda>i. random w (Suc i)),
                   store := (store w)[ref (fieldsOf (seg_branch s)) :=
                              (store w ! ref (fieldsOf (seg_branch s)))
                                \<lparr>pruned := True, regrowAt := now + 18000 + random w 0 * 14000\<rparr>],
                   sawState := (sawState w)\<lparr>lastCut := now\<rparr>\<rparr>"
      by (rule e)
    show "lastCut (sawState (performSawCut now w)) = now" by (rule l)
  next
    assume r: "ref (fieldsOf (seg_branch s)) < length (store w)"
    show "pruned (store (performSawCut now w) ! ref (fieldsOf (seg_branch s)))"
      using v [OF r] by blast
    show "regrowAt (store (performSawCut now w) ! ref (fieldsOf (seg_branch s)))
            = now + 18000 + random w 0 * 14000"
      using v [OF r] by blast
    assume q: "0 \<le> random w 0 \<and> random w 0 < 1"
    show "now + 18000 \<le> regrowAt (store (performSawCut now w) ! ref (fieldsOf (seg_branch s)))"
      using v [OF r] b [OF q] by simp
    show "regrowAt (store (performSawCut now w) ! ref (fieldsOf (seg_branch s))) < now + 32000"
      using v [OF r] b [OF q] by simp
  qed
next
  fix s :: segment and t :: real
  assume "0 \<le> t \<and> t \<le> 1"
  then show "sawDist w s \<le> hypot (x1 s + (x2 s - x1 s) * t - saw_x (sawState w))
                                 (y1 s + (y2 s - y1 s) * t - saw_y (sawState w))"
    unfolding sawDist_def by (intro segDist_least) simp_all
next
  fix s :: segment
  from closestPoint_param [of "x1 s" "y1 s" "x2 s" "y2 s" "saw_x (sawState w)" "saw_y (sawState w)"]
  show "\<exists>t. 0 \<le> t \<and> t \<le> 1
        \<and> sawDist w s = hypot (x1 s + (x2 s - x1 s) * t - saw_x (sawState w))
                               (y1 s + (y2 s - y1 s) * t - saw_y (sawState w))"
    by (auto simp add: sawDist_def segDist_def)
qed

theorem saw_cut_witness:
  "50 - lastCut (sawState sawWorld) < sawCooldown
   \<and> performSawCut 50 sawWorld = sawWorld
   \<and> \<not> 1000 - lastCut (sawState sawWorld) < sawCooldown
   \<and> pruned (store (performSawCut 1000 sawWorld) ! 1)
   \<and> regrowAt (store (performSawCut 1000 sawWorld) ! 1) = 26000
   \<and> lastCut (sawState (performSawCut 1000 sawWorld)) = 1000"
proof -
  define sg where "sg = \<lparr> seg_branch = twig, x1 = 0, y1 = 0, x2 = 10, y2 = 0 \<rparr>"
  have f: "lastCut (sawState sawWorld) = 0" "branchSegments sawWorld = [sg]"
    "store sawWorld = [freshCell, freshCell]" "random sawWorld 0 = 1 / 2"
    "saw_x (sawState sawWorld) = 5" "saw_y (sawState sawWorld) = 0"
    by (simp_all add: sawWorld_def world0_def sg_def)
  have c: "cuttable sawWorld sg"
    by (simp add: cuttable_def f sg_def twig_def twigProps_def freshCell_def)
  have d: "sawDist sawWorld sg = 0"
    by (simp add: sawDist_def segDist_def closestPoint_def hypot_def clamp_def Let_def f sg_def)
  have r: "ref (fieldsOf (seg_branch sg)) = 1"
    by (simp add: sg_def twig_def twigProps_def)
  have cool: "50 - lastCut (sawState sawWorld) < sawCooldown"
    "\<not> 1000 - lastCut (sawState sawWorld) < sawCooldown"
    by (simp_all add: f sawCooldown_def)
  have near: "\<exists>s \<in> set (branchSegments sawWorld). cuttable sawWorld s \<and> sawDist sawWorld s < sawRadius"
    using c d by (simp add: f sawRadius_def)
  have a: "performSawCut 50 sawWorld = sawWorld"
    using saw_cut [of 50 sawWorld] cool(1) by blast
  from saw_cut [of 1000 sawWorld] cool(2) near
  obtain s where s: "s \<in> set (branchSegments sawWorld)"
    and l: "lastCut (sawState (performSawCut 1000 sawWorld)) = 1000"
    and v: "ref (fieldsOf (seg_branch s)) < length (store sawWorld)
                  \<longrightarrow> pruned (store (performSawCut 1000 sawWorld) ! ref (fieldsOf (seg_branch s)))
                    \<and> regrowAt (store (performSawCut 1000 sawWorld) ! ref (fieldsOf (seg_branch s)))
                        = 1000 + 18000 + random sawWorld 0 * 14000"
    by blast
  from s have "s = sg" by (simp add: f)
  with v r have "pruned (store (performSawCut 1000 sawWorld) ! 1)
     \<and> regrowAt (store (performSawCut 1000 sawWorld) ! 1) = 26000"
    by (simp add: f)
  with a l cool show ?thesis by blast
qed

section \<open>Properties of the tree walk\<close>

lemma walked_refl [simp]: "walked time S w w"
  by (simp add: walked_def)

lemma walked_trans:
  assumes a: "walked time S w w'" and b: "walked time S w' w''"
  shows "walked time S w w''"
proof -
  have l: "length (store w') = length (store w)" "length (store w'') = length (store w')"
    using a b unfolding walked_def by blast+
  from a b obtain e1 e2 where
    e: "branchSegments w' = branchSegments w @ e1" "\<forall>s \<in> set e1. seg_branch s \<in> S"
       "branchSegments w'' = branchSegments w' @ e2" "\<forall>s \<in> set e2. seg_branch s \<in> S"
    unfolding walked_def by blast
  then have "branchSegments w'' = branchSegments w @ (e1 @ e2) \<and> (\<forall>s \<in> set (e1 @ e2). seg_branch s \<in> S)"
    by auto
  then have x: "\<exists>ext. branchSegments w'' = branchSegments w @ ext \<and> (\<forall>s \<in> set ext. seg_branch s \<in> S)"
    by blast
  have f: "fruitsRipened w \<le> fruitsRipened w''"
    using a b unfolding walked_def by linarith
  have c: "(pruned (store w'' ! i) \<longrightarrow> pruned (store w ! i))
           \<and> (pruned (store w ! i) \<and> time \<le> regrowAt (store w ! i) \<longrightarrow> pruned (store w'' ! i))
           \<and> regrowAt (store w'' ! i) = regrowAt (store w ! i)" if "i < length (store w)" for i
  proof -
    have p: "(pruned (store w' ! i) \<longrightarrow> pruned (store w ! i))
           \<and> (pruned (store w ! i) \<and> time \<le> regrowAt (store w ! i) \<longrightarrow> pruned (store w' ! i))
           \<and> regrowAt (store w' ! i) = regrowAt (store w ! i)"
      using a that unfolding walked_def by blast
    have q: "(pruned (store w'' ! i) \<longrightarrow> pruned (store w' ! i))
           \<and> (pruned (store w' ! i) \<and> time \<le> regrowAt (store w' ! i) \<longrightarrow> pruned (store w'' ! i))
           \<and> regrowAt (store w'' ! i) = regrowAt (store w' ! i)"
      using b that l unfolding walked_def by simp
    from p q show ?thesis by metis
  qed
  have l': "length (store w'') = length (store w)" using l by simp
  show ?thesis
    unfolding walked_def using l' x f c by blast
qed

lemma walked_mono: "walked time S w w' \<Longrightarrow> S \<subseteq> T \<Longrightarrow> walked time T w w'"
  unfolding walked_def by blast

lemma ripenFruit_keeps [simp]:
  "store (snd (ripenFruit f w)) = store w"
  "branchSegments (snd (ripenFruit f w)) = branchSegments w"
  "deltaMs (snd (ripenFruit f w)) = deltaMs w"
  "hydration (snd (ripenFruit f w)) = hydration w"
  by (simp_all add: ripenFruit_def Let_def)

lemma ripenFruit_count:
  "fruitsRipened (snd (ripenFruit f w)) = fruitsRipened w
   \<or> fruitsRipened (snd (ripenFruit f w)) = fruitsRipened w + 1"
  by (simp add: ripenFruit_def Let_def)

lemma ripenFruits_keeps [simp]:
  "store (snd (ripenFruits fs w)) = store w"
  "branchSegments (snd (ripenFruits fs w)) = branchSegments w"
  by (induction fs arbitrary: w) (simp_all add: ripenFruits_Cons del: ripenFruits.simps(2))

lemma ripenFruits_count: "fruitsRipened w \<le> fruitsRipened (snd (ripenFruits fs w))"
proof (induction fs arbitrary: w)
  case Nil
  show ?case by simp
next
  case (Cons f fs)
  have "fruitsRipened w \<le> fruitsRipened (snd (ripenFruit f w))"
    using ripenFruit_count [of f w] by linarith
  also have "\<dots> \<le> fruitsRipened (snd (ripenFruits fs (snd (ripenFruit f w))))"
    by (rule Cons)
  finally show ?case by (simp only: ripenFruits_Cons snd_conv)
qed

lemma newFruit_keeps [simp]:
  "store (snd (newFruit sd idx w)) = store w"
  "branchSegments (snd (newFruit sd idx w)) = branchSegments w"
  "fruitsRipened (snd (newFruit sd idx w)) = fruitsRipened w"
  by (simp_all add: newFruit_def Math_random_def case_prod_beta)

lemma makeFruits_keeps [simp]:
  "store (snd (makeFruits sd idx n w)) = store w"
  "branchSegments (snd (makeFruits sd idx n w)) = branchSegments w"
  "fruitsRipened (snd (makeFruits sd idx n w)) = fruitsRipened w"
  by (induction n arbitrary: w idx) (simp_all add: makeFruits_Suc del: makeFruits.simps(2))

lemma drawFruit_walked: "walked time S w (drawFruit p w)"
proof (cases "lifeStage w \<noteq> Fruit \<and> lifeStage w \<noteq> Decline \<and> lifeStage w \<noteq> SeedFall")
  case True
  then show ?thesis by (simp add: drawFruit_def)
next
  case False
  define r where "r = (case fruits (store w ! ref p) of
                 None \<Rightarrow> makeFruits (seed p) 0 (if seededRandom (seed p + 40) > 0.65 then 2 else 1) w
               | Some fs \<Rightarrow> (fs, w))"
  define v where "v = snd (ripenFruits (fst r) (snd r))"
  define fs where "fs = fst (ripenFruits (fst r) (snd r))"
  have a: "store (snd r) = store w" "branchSegments (snd r) = branchSegments w"
    "fruitsRipened (snd r) = fruitsRipened w"
    unfolding r_def by (cases "fruits (store w ! ref p)"; simp)+
  have b: "store v = store w" "branchSegments v = branchSegments w" "fruitsRipened w \<le> fruitsRipened v"
    unfolding v_def using a ripenFruits_count [of "snd r" "fst r"] by simp_all
  have "drawFruit p w = (case r of (fs, w1) \<Rightarrow> case ripenFruits fs w1 of (fs', w2) \<Rightarrow>
           w2\<lparr>store := (store w2)[ref p := (store w2 ! ref p)\<lparr>fruits := Some fs'\<rparr>]\<rparr>)"
    unfolding drawFruit_def r_def using False by (simp only: if_False)
  then have e: "drawFruit p w = v\<lparr>store := (store v)[ref p := (store v ! ref p)\<lparr>fruits := Some fs\<rparr>]\<rparr>"
    by (simp add: case_prod_beta v_def fs_def)
  have c: "pruned (((store v)[ref p := (store v ! ref p)\<lparr>fruits := Some fs\<rparr>]) ! i) = pruned (store v ! i)
         \<and> regrowAt (((store v)[ref p := (store v ! ref p)\<lparr>fruits := Some fs\<rparr>]) ! i) = regrowAt (store v ! i)"
    if "i < length (store v)" for i
    using that by (cases "i = ref p") simp_all
  have x: "\<exists>ext. branchSegments v = branchSegments w @ ext \<and> (\<forall>s \<in> set ext. seg_branch s \<in> S)"
    using b by simp
  show ?thesis
    unfolding e walked_def using b c x by simp
qed

lemma fold_walked:
  assumes "\<And>c v. c \<in> set cs \<Longrightarrow> walked time S v (f c v)"
  shows "walked time S w (fold f cs w)"
  using assms
proof (induction cs arbitrary: w)
  case Nil
  show ?case by simp
next
  case (Cons c cs)
  have "walked time S w (f c w)" using Cons.prems by simp
  moreover have "walked time S (f c w) (fold f cs (f c w))" using Cons by simp
  ultimately show ?case by (simp only: fold_simps) (rule walked_trans)
qed


lemma unprune_id: "\<not> pruned c \<Longrightarrow> c\<lparr>pruned := False\<rparr> = c"
  by (cases c) simp

lemma drawBranch_hidden:
  assumes "progress (depth p) (growth w) \<le> 0
   \<or> (pruned (store w ! ref p) \<and> time \<le> regrowAt (store w ! ref p))"
  shows "drawBranch (Branch p cs) time pa sx sy w = w"
proof (cases "progress (depth p) (growth w) \<le> 0")
  case True
  then show ?thesis by (simp only: drawBranch.simps if_P)
next
  case False
  with assms have b: "pruned (store w ! ref p) \<and> \<not> time > regrowAt (store w ! ref p)"
    by (simp add: not_less)
  show ?thesis
    by (simp only: drawBranch.simps Let_def if_not_P [OF False] if_P [OF b])
qed

lemma drawBranch_shown:
  assumes v: "0 < progress (depth p) (growth w)"
    and u: "\<not> (pruned (store w ! ref p) \<and> time \<le> regrowAt (store w ! ref p))"
  shows "drawBranch (Branch p cs) time pa sx sy w =
     (let w2 = shown p cs time pa sx sy w;
          ang = frameAngle p time pa w;
          len = blength p * easeOutCubic (progress (depth p) (growth w))
      in if cs = [] \<and> progress (depth p) (growth w) > 0.35 then
           (if depth p \<ge> fruitDepthStart then drawFruit p w2 else w2)
         else if progress (depth p) (growth w) > 0.55 then
           fold (\<lambda>child. drawBranch child time ang (sx + sin ang * len) (sy - cos ang * len)) cs w2
         else w2)"
proof -
  have e: "(if pruned (store w ! ref p)
            then w\<lparr>store := (store w)[ref p := (store w ! ref p)\<lparr>pruned := False\<rparr>]\<rparr>
            else w) = w\<lparr>store := (store w)[ref p := (store w ! ref p)\<lparr>pruned := False\<rparr>]\<rparr>"
    by (simp add: unprune_id)
  have c1: "\<not> progress (depth p) (growth w) \<le> 0" using v by simp
  have c2: "\<not> (pruned (store w ! ref p) \<and> \<not> time > regrowAt (store w ! ref p))"
    using u by (simp add: not_less)
  have s: "store (w\<lparr>store := st\<rparr>) = st" "branchSegments (w\<lparr>store := st\<rparr>) = branchSegments w" for st
    by simp_all
  show ?thesis
    by (simp only: drawBranch.simps Let_def if_not_P [OF c1] if_not_P [OF c2] e shown_def stroke_def)
       simp
qed


lemma shown_walked:
  assumes u: "\<not> (pruned (store w ! ref p) \<and> time \<le> regrowAt (store w ! ref p))"
  shows "walked time (set (nodes (Branch p cs))) w (shown p cs time pa sx sy w)"
proof -
  have c: "(pruned (((store w)[ref p := (store w ! ref p)\<lparr>pruned := False\<rparr>]) ! i) \<longrightarrow> pruned (store w ! i))
         \<and> (pruned (store w ! i) \<and> time \<le> regrowAt (store w ! i)
              \<longrightarrow> pruned (((store w)[ref p := (store w ! ref p)\<lparr>pruned := False\<rparr>]) ! i))
         \<and> regrowAt (((store w)[ref p := (store w ! ref p)\<lparr>pruned := False\<rparr>]) ! i) = regrowAt (store w ! i)"
    if "i < length (store w)" for i
    using that u by (cases "i = ref p") auto
  have x: "\<exists>ext. branchSegments w @ [stroke p cs time pa sx sy w] = branchSegments w @ ext
            \<and> (\<forall>s \<in> set ext. seg_branch s \<in> set (nodes (Branch p cs)))"
    by (intro exI [of _ "[stroke p cs time pa sx sy w]"]) (simp add: stroke_def Let_def)
  show ?thesis
    unfolding walked_def shown_def using c x by simp
qed

lemma drawBranch_walked: "walked time (set (nodes b)) w (drawBranch b time pa sx sy w)"
proof (induction b arbitrary: pa sx sy w)
  case (Branch p cs)
  define S where "S = set (nodes (Branch p cs))"
  have "walked time S w (drawBranch (Branch p cs) time pa sx sy w)"
  proof (cases "progress (depth p) (growth w) \<le> 0
     \<or> (pruned (store w ! ref p) \<and> time \<le> regrowAt (store w ! ref p))")
    case True
    then show ?thesis by (simp only: drawBranch_hidden walked_refl)
  next
    case False
    then have v: "0 < progress (depth p) (growth w)"
      and u: "\<not> (pruned (store w ! ref p) \<and> time \<le> regrowAt (store w ! ref p))"
      by simp_all
    define w2 where "w2 = shown p cs time pa sx sy w"
    have a: "walked time S w w2"
      unfolding w2_def S_def by (rule shown_walked [OF u])
    have f: "walked time S w (drawFruit p w2)"
      by (rule walked_trans [OF a drawFruit_walked])
    have k: "walked time S v (drawBranch c time ang ex ey v)" if "c \<in> set cs" for c v ang ex ey
    proof -
      have "set (nodes c) \<subseteq> S" using that by (auto simp add: S_def)
      with Branch [OF that] show ?thesis by (rule walked_mono)
    qed
    have c: "walked time S w (fold (\<lambda>child. drawBranch child time ang ex ey) cs w2)" for ang ex ey
      by (rule walked_trans [OF a fold_walked]) (rule k)
    show ?thesis
      using a f c by (simp add: drawBranch_shown [OF v u] Let_def w2_def [symmetric])
  qed
  then show ?case by (simp only: S_def)
qed

lemma drawBranch_regrow:
  assumes r: "ref p < length (store w)"
    and late: "regrowAt (store w ! ref p) < time"
    and v: "0 < progress (depth p) (growth w)"
  shows "\<not> pruned (store (drawBranch (Branch p cs) time pa sx sy w) ! ref p)
       \<and> (\<exists>s \<in> set (branchSegments (drawBranch (Branch p cs) time pa sx sy w)).
             seg_branch s = Branch p cs \<and> x1 s = sx \<and> y1 s = sy)"
proof -
  have u: "\<not> (pruned (store w ! ref p) \<and> time \<le> regrowAt (store w ! ref p))"
    using late by simp
  define w2 where "w2 = shown p cs time pa sx sy w"
  define R where "R = drawBranch (Branch p cs) time pa sx sy w"
  have k: "walked time UNIV v (drawBranch c time ang ex ey v)" for c v ang ex ey
    by (rule walked_mono [OF drawBranch_walked]) simp
  have "walked time UNIV w2 (fold (\<lambda>child. drawBranch child time ang ex ey) cs w2)" for ang ex ey
    by (rule fold_walked) (rule k)
  then have a: "walked time UNIV w2 R"
    unfolding R_def
    by (simp add: drawBranch_shown [OF v u] Let_def w2_def [symmetric] drawFruit_walked)
  have p2: "\<not> pruned (store w2 ! ref p)" "ref p < length (store w2)"
    using r by (simp_all add: w2_def shown_def)
  have s2: "branchSegments w2 = branchSegments w @ [stroke p cs time pa sx sy w]"
    by (simp add: w2_def shown_def)
  from a p2 have "\<not> pruned (store R ! ref p)"
    unfolding walked_def by blast
  moreover from a obtain ext where "branchSegments R = branchSegments w2 @ ext"
    unfolding walked_def by blast
  then have "stroke p cs time pa sx sy w \<in> set (branchSegments R)"
    by (simp add: s2)
  then have "\<exists>s \<in> set (branchSegments R). seg_branch s = Branch p cs \<and> x1 s = sx \<and> y1 s = sy"
    by (rule bexI [rotated]) (simp add: stroke_def Let_def)
  ultimately show ?thesis unfolding R_def by blast
qed

lemma drawBranch_as_unpruned:
  assumes pr: "pruned (store w ! ref p)" and late: "regrowAt (store w ! ref p) < time"
    and v: "0 < progress (depth p) (growth w)"
  shows "drawBranch (Branch p cs) time pa sx sy w
       = drawBranch (Branch p cs) time pa sx sy
           (w\<lparr>store := (store w)[ref p := (store w ! ref p)\<lparr>pruned := False\<rparr>]\<rparr>)"
proof (cases "ref p < length (store w)")
  case False
  then show ?thesis by (simp add: list_update_beyond)
next
  case True
  define w' where "w' = w\<lparr>store := (store w)[ref p := (store w ! ref p)\<lparr>pruned := False\<rparr>]\<rparr>"
  have g: "growth w' = growth w" by (simp add: w'_def)
  have n: "\<not> pruned (store w' ! ref p)" using True by (simp add: w'_def)
  have u: "\<not> (pruned (store w ! ref p) \<and> time \<le> regrowAt (store w ! ref p))"
    using late by simp
  have v': "0 < progress (depth p) (growth w')" using v g by simp
  have u': "\<not> (pruned (store w' ! ref p) \<and> time \<le> regrowAt (store w' ! ref p))"
    using n by simp
  have "shown p cs time pa sx sy w' = shown p cs time pa sx sy w"
    using True by (simp add: shown_def stroke_def frameAngle_def w'_def Let_def)
  moreover have "frameAngle p time pa w' = frameAngle p time pa w"
    by (simp add: frameAngle_def w'_def)
  ultimately show ?thesis
    unfolding w'_def [symmetric]
    by (simp only: drawBranch_shown [OF v u] drawBranch_shown [OF v' u'] g)
qed


lemma grown_refl [simp]: "grown w w"
  unfolding grown_def by (rule exI [of _ 0]) simp

lemma grown_same: "store w' = store w \<Longrightarrow> grown w w'"
  unfolding grown_def by (rule exI [of _ 0]) simp

lemma grown_trans: "grown w w' \<Longrightarrow> grown w' w'' \<Longrightarrow> grown w w''"
  unfolding grown_def by (metis append_assoc replicate_add)

lemma grown_nth: "grown w w' \<Longrightarrow> a < length (store w) \<Longrightarrow> store w' ! a = store w ! a"
  unfolding grown_def by (auto simp add: nth_append)

lemma grown_length: "grown w w' \<Longrightarrow> length (store w) \<le> length (store w')"
  unfolding grown_def by auto

lemma createBranch_grown: "grown w (snd (createBranch d len ang sd w))"
  unfolding grown_def using createBranch_store [of d len ang sd w] by blast

lemma buildTree_grown: "grown w (snd (buildTree w))"
proof -
  have "grown (snd (Math_random (w\<lparr>branchIdCounter := 0\<rparr>)))
          (snd (createBranch 0 (min (width w) (height w) * 0.25) 0
       (fst (Math_random (w\<lparr>branchIdCounter := 0\<rparr>)) * 1000) (snd (Math_random (w\<lparr>branchIdCounter := 0\<rparr>)))))"
    by (rule createBranch_grown)
  then show ?thesis
    by (simp add: buildTree_def Let_def case_prod_beta grown_def Math_random_def)
qed

lemma spawnSaplings_store [simp]: "store (spawnSaplings w) = store w"
  by (subst spawnSaplings_frame) simp

lemma stageSwitch_grown: "grown w (stageSwitch delta w)"
proof (cases "lifeStage w")
  case Rebirth
  have "grown w (if saplings w = [] then spawnSaplings w else w)"
    by (simp add: grown_same)
  then have "grown w (snd (buildTree (if saplings w = [] then spawnSaplings w else w)))"
    by (rule grown_trans [OF _ buildTree_grown])
  then show ?thesis
    using Rebirth unfolding grown_def
    by (auto simp add: stageSwitch_def setStage_def Let_def case_prod_beta intro: exI [of _ 0])
qed (simp_all add: grown_same stageSwitch_def setStage_def Let_def Math_random_def)

lemma updateLifeStage_grown: "grown w (updateLifeStage delta w)"
  using stageSwitch_grown [of w delta]
  by (simp add: updateLifeStage_def Let_def grown_def)

lemma advance_store [simp]: "store (advance time w) = store w"
  by (simp add: advance_def Let_def Math_random_def case_prod_beta)

lemma updateSaplings_store [simp]: "store (updateSaplings delta w) = store w"
  by (simp add: updateSaplings_def)

lemma drawTree_walked: "walked time UNIV (w\<lparr>branchSegments := []\<rparr>) (drawTree time w) \<or> drawTree time w = w"
proof (cases "tree w")
  case None
  then show ?thesis by (simp add: drawTree_def)
next
  case (Some t)
  have "walked time UNIV (w\<lparr>branchSegments := []\<rparr>)
          (drawBranch t time 0 (width w / 2) (height w - 60) (w\<lparr>branchSegments := []\<rparr>))"
    by (rule walked_mono [OF drawBranch_walked]) simp
  then show ?thesis using Some by (simp add: drawTree_def)
qed

lemma performSawCut_cases:
  "performSawCut now w = w
   \<or> (\<exists>s \<in> set (branchSegments w).
         cuttable w s
         \<and> performSawCut now w =
               w\<lparr>random := (\<lambda>i. random w (Suc i)),
                 store := (store w)[ref (fieldsOf (seg_branch s)) :=
                            (store w ! ref (fieldsOf (seg_branch s)))
                              \<lparr>pruned := True, regrowAt := now + 18000 + random w 0 * 14000\<rparr>],
                 sawState := (sawState w)\<lparr>lastCut := now\<rparr>\<rparr>)"
proof (cases "now - lastCut (sawState w) < sawCooldown
    \<or> (\<forall>s \<in> set (branchSegments w). cuttable w s \<longrightarrow> sawRadius \<le> sawDist w s)")
  case True
  then have "performSawCut now w = w"
    using performSawCut_miss [of w now] by (auto simp add: performSawCut_def)
  then show ?thesis by simp
next
  case False
  then have "\<not> now - lastCut (sawState w) < sawCooldown"
    "\<exists>s \<in> set (branchSegments w). cuttable w s \<and> sawDist w s < sawRadius"
    by (auto simp add: not_le)
  from performSawCut_hit [OF this] show ?thesis by blast
qed

lemma keeps_cell_pruned:
  assumes a: "a < length (store w)" and pr: "pruned (store w ! a)"
    and early: "\<And>time. e = Frame time \<Longrightarrow> time \<le> regrowAt (store w ! a)"
  shows "a < length (store (fire e w)) \<and> pruned (store (fire e w) ! a)
       \<and> regrowAt (store (fire e w) ! a) = regrowAt (store w ! a)"
proof -
  have saw: "a < length (store (performSawCut now v)) \<and> pruned (store (performSawCut now v) ! a)
       \<and> regrowAt (store (performSawCut now v) ! a) = regrowAt (store w ! a)"
    if "store v = store w" for now v
  proof -
    from performSawCut_cases [of now v] show ?thesis
    proof
      assume "performSawCut now v = v"
      then show ?thesis using a pr that by simp
    next
      assume "\<exists>s \<in> set (branchSegments v).
         cuttable v s
         \<and> performSawCut now v =
               v\<lparr>random := (\<lambda>i. random v (Suc i)),
                 store := (store v)[ref (fieldsOf (seg_branch s)) :=
                            (store v ! ref (fieldsOf (seg_branch s)))
                              \<lparr>pruned := True, regrowAt := now + 18000 + random v 0 * 14000\<rparr>],
                 sawState := (sawState v)\<lparr>lastCut := now\<rparr>\<rparr>"
      then obtain s where c: "cuttable v s" and e: "performSawCut now v =
               v\<lparr>random := (\<lambda>i. random v (Suc i)),
                 store := (store v)[ref (fieldsOf (seg_branch s)) :=
                            (store v ! ref (fieldsOf (seg_branch s)))
                              \<lparr>pruned := True, regrowAt := now + 18000 + random v 0 * 14000\<rparr>],
                 sawState := (sawState v)\<lparr>lastCut := now\<rparr>\<rparr>"
        by blast
      from c pr that have "ref (fieldsOf (seg_branch s)) \<noteq> a"
        by (auto simp add: cuttable_def)
      then show ?thesis using a pr that by (simp add: e)
    qed
  qed
  show ?thesis
  proof (cases e)
    case (Frame time)
    define w9 where "w9 = updateLifeStage (deltaMs (advance time w)) (advance time w)"
    define w10 where "w10 = updateSaplings (deltaMs w9) w9"
    have "grown (advance time w) w9" unfolding w9_def by (rule updateLifeStage_grown)
    then have g: "grown w w10" by (simp add: grown_def w10_def)
    have c: "a < length (store w10)" "store w10 ! a = store w ! a"
      using grown_length [OF g] grown_nth [OF g a] a by simp_all
    have l: "loop time w = drawTree time w10"
      by (simp only: loop_def Let_def w9_def w10_def)
    from drawTree_walked [of time w10]
    have "a < length (store (drawTree time w10)) \<and> pruned (store (drawTree time w10) ! a)
       \<and> regrowAt (store (drawTree time w10) ! a) = regrowAt (store w ! a)"
    proof
      assume "drawTree time w10 = w10"
      then show ?thesis using c pr by simp
    next
      assume "walked time UNIV (w10\<lparr>branchSegments := []\<rparr>) (drawTree time w10)"
      then show ?thesis
        unfolding walked_def using c pr early [OF Frame] by simp
    qed
    then show ?thesis using Frame l by simp
  next
    case Water
    then show ?thesis using a pr by (simp add: water_def Let_def Math_random_def)
  next
    case Pulse
    then show ?thesis using a pr by (simp add: growthPulse_def Let_def Math_random_def)
  next
    case (PointerDown button point now)
    then show ?thesis
      using a pr saw [of "updatePointer point (w\<lparr>sawState := (sawState w)\<lparr>active := True\<rparr>\<rparr>)" now]
      by (simp add: pointerdown_def updatePointer_def)
  next
    case (PointerMove point now)
    then show ?thesis
      using a pr saw [of "updatePointer point w" now]
      by (simp add: pointermove_def updatePointer_def Let_def)
  next
    case PointerUp
    then show ?thesis using a pr by (simp add: pointerup_def)
  next
    case (Resize wd ht)
    have g: "grown w (snd (buildTree (w\<lparr>width := wd, height := ht\<rparr>)))"
      using buildTree_grown [of "w\<lparr>width := wd, height := ht\<rparr>"] by (simp add: grown_def)
    show ?thesis
      using Resize a pr grown_length [OF g] grown_nth [OF g a]
      by (simp add: resize_def case_prod_beta)
  qed
qed


lemma child_progress:
  assumes "0.55 < progress d g" and "d < maxDepth"
  shows "0 < progress (Suc d) g"
proof -
  have d: "real d \<le> 6" using assms(2) by (simp add: maxDepth_def)
  define q where "q = (g - real d * 0.11) / (1 - real d * 0.11)"
  define q' where "q' = (g - (real d + 1) * 0.11) / (1 - (real d + 1) * 0.11)"
  have b: "0 < 1 - real d * 0.11" using d by simp
  have "progress d g = min 1 (max 0 q)"
    by (simp only: progress_def growthDelayPerLevel_def Let_def clamp_def q_def)
  with assms(1) have "0.55 < q" by (simp add: min_def max_def split: if_splits)
  then have "0.55 * (1 - real d * 0.11) < g - real d * 0.11"
    unfolding q_def using b by (simp only: pos_less_divide_eq)
  then have n: "0 < g - (real d + 1) * 0.11" using d by simp
  have c: "0 < 1 - (real d + 1) * 0.11" using d by simp
  have p: "0 < q'" unfolding q'_def using n c by (rule divide_pos_pos)
  have "progress (Suc d) g = min 1 (max 0 q')"
    by (simp add: progress_def growthDelayPerLevel_def Let_def clamp_def q'_def algebra_simps)
  with p show ?thesis by (simp add: min_def max_def)
qed

text \<open>
  C6. Let the cell of a branch be in the store and \<open>pruned\<close>, as it is right after a
  cut. An evaluation of the branch by \<open>drawBranch\<close> at a time of at most
  \<open>regrowAt\<close> changes nothing: the flag stays true, no segment is pushed and the children
  are not walked (only the stub and the bud are drawn). No event changes the flag or
  \<open>regrowAt\<close>, except a frame whose time is greater than \<open>regrowAt\<close>. An evaluation at a
  time greater than \<open>regrowAt\<close>, of a branch that has started to grow
  (\<open>progress > 0\<close>, which by \<open>child_progress\<close> holds whenever the walk reaches a child),
  leaves the flag false, pushes the branch's segment, and is the evaluation of the same
  branch unpruned.
\<close>

theorem regrow_lifecycle:
  assumes r: "ref p < length (store w)" and pr: "pruned (store w ! ref p)"
  shows "(time \<le> regrowAt (store w ! ref p) \<longrightarrow> drawBranch (Branch p cs) time pa sx sy w = w)
    \<and> ((\<forall>t. e = Frame t \<longrightarrow> t \<le> regrowAt (store w ! ref p))
         \<longrightarrow> ref p < length (store (fire e w)) \<and> pruned (store (fire e w) ! ref p)
           \<and> regrowAt (store (fire e w) ! ref p) = regrowAt (store w ! ref p))
    \<and> (regrowAt (store w ! ref p) < time \<and> 0 < progress (depth p) (growth w)
         \<longrightarrow> \<not> pruned (store (drawBranch (Branch p cs) time pa sx sy w) ! ref p)
           \<and> (\<exists>s \<in> set (branchSegments (drawBranch (Branch p cs) time pa sx sy w)).
                 seg_branch s = Branch p cs \<and> x1 s = sx \<and> y1 s = sy)
           \<and> drawBranch (Branch p cs) time pa sx sy w
               = drawBranch (Branch p cs) time pa sx sy
                   (w\<lparr>store := (store w)[ref p := (store w ! ref p)\<lparr>pruned := False\<rparr>]\<rparr>))"
proof (intro conjI impI)
  assume "time \<le> regrowAt (store w ! ref p)"
  with pr show "drawBranch (Branch p cs) time pa sx sy w = w"
    by (intro drawBranch_hidden) simp
next
  assume e: "\<forall>t. e = Frame t \<longrightarrow> t \<le> regrowAt (store w ! ref p)"
  from keeps_cell_pruned [OF r pr, of e] e
  show "ref p < length (store (fire e w))" "pruned (store (fire e w) ! ref p)"
    "regrowAt (store (fire e w) ! ref p) = regrowAt (store w ! ref p)"
    by blast+
next
  assume a: "regrowAt (store w ! ref p) < time \<and> 0 < progress (depth p) (growth w)"
  from drawBranch_regrow [OF r, of time cs pa sx sy] a
  show "\<not> pruned (store (drawBranch (Branch p cs) time pa sx sy w) ! ref p)"
    "\<exists>s \<in> set (branchSegments (drawBranch (Branch p cs) time pa sx sy w)).
                 seg_branch s = Branch p cs \<and> x1 s = sx \<and> y1 s = sy"
    by blast+
  from drawBranch_as_unpruned [OF pr, of time cs pa sx sy] a
  show "drawBranch (Branch p cs) time pa sx sy w
               = drawBranch (Branch p cs) time pa sx sy
                   (w\<lparr>store := (store w)[ref p := (store w ! ref p)\<lparr>pruned := False\<rparr>]\<rparr>)"
    by blast
qed

theorem regrow_lifecycle_witness:
  "ref twigProps < length (store prunedWorld)
   \<and> pruned (store prunedWorld ! ref twigProps)
   \<and> regrowAt (store prunedWorld ! ref twigProps) = 26000
   \<and> drawBranch (Branch twigProps []) 1000 0 0 0 prunedWorld = prunedWorld
   \<and> pruned (store (fire (Frame 1000) prunedWorld) ! ref twigProps)
   \<and> pruned (store (fire Water prunedWorld) ! ref twigProps)
   \<and> 0 < progress (depth twigProps) (growth prunedWorld)
   \<and> \<not> pruned (store (drawBranch (Branch twigProps []) 30000 0 0 0 prunedWorld) ! ref twigProps)"
proof -
  have f: "ref twigProps = 1" "depth twigProps = 1" "growth prunedWorld = 0.5"
    "store prunedWorld = [freshCell, \<lparr> pruned = True, regrowAt = 26000, fruits = None \<rparr>]"
    by (simp_all add: twigProps_def prunedWorld_def sawWorld_def world0_def)
  have r: "ref twigProps < length (store prunedWorld)"
    and pr: "pruned (store prunedWorld ! ref twigProps)"
    and g: "regrowAt (store prunedWorld ! ref twigProps) = 26000"
    by (simp_all add: f)
  have v: "0 < progress (depth twigProps) (growth prunedWorld)"
    by (simp add: f progress_def growthDelayPerLevel_def clamp_def Let_def)
  have a: "drawBranch (Branch twigProps []) 1000 0 0 0 prunedWorld = prunedWorld"
  proof -
    have early: "1000 \<le> regrowAt (store prunedWorld ! ref twigProps)" by (simp add: g)
    from regrow_lifecycle [OF r pr, where time = 1000 and cs = "[]" and pa = 0 and sx = 0 and sy = 0]
      early show ?thesis by blast
  qed
  have b: "pruned (store (fire (Frame 1000) prunedWorld) ! ref twigProps)"
  proof -
    have early: "\<forall>t. Frame 1000 = Frame t \<longrightarrow> t \<le> regrowAt (store prunedWorld ! ref twigProps)"
      by (simp add: g)
    from regrow_lifecycle [OF r pr, where e = "Frame 1000"] early show ?thesis by blast
  qed
  have c: "pruned (store (fire Water prunedWorld) ! ref twigProps)"
  proof -
    have early: "\<forall>t. Water = Frame t \<longrightarrow> t \<le> regrowAt (store prunedWorld ! ref twigProps)"
      by simp
    from regrow_lifecycle [OF r pr, where e = Water] early show ?thesis by blast
  qed
  have d: "\<not> pruned (store (drawBranch (Branch twigProps []) 30000 0 0 0 prunedWorld) ! ref twigProps)"
  proof -
    have late: "regrowAt (store prunedWorld ! ref twigProps) < 30000" by (simp add: g)
    from regrow_lifecycle [OF r pr, where time = 30000 and cs = "[]" and pa = 0 and sx = 0 and sy = 0]
      late v show ?thesis by blast
  qed
  show ?thesis using r pr g a b c v d by blast
qed

section \<open>Properties of the regeneration\<close>

lemma refsOf_Branch: "refsOf (Branch p cs) = ref p # concat (map refsOf cs)"
  by (simp add: refsOf_def [abs_def] map_concat comp_def)

lemma refsOf_sub: "n \<in> set (nodes t) \<Longrightarrow> set (refsOf n) \<subseteq> set (refsOf t)"
proof (induction t arbitrary: n)
  case (Branch p cs)
  show ?case
  proof (cases "n = Branch p cs")
    case True then show ?thesis by simp
  next
    case False
    with Branch.prems obtain c where c: "c \<in> set cs" "n \<in> set (nodes c)" by auto
    from Branch.IH [OF c] c(1) show ?thesis by (auto simp add: refsOf_Branch)
  qed
qed

lemma createBranch_refsOf:
  "\<forall>a \<in> set (refsOf (fst (createBranch d len ang sd w))).
     length (store w) \<le> a \<and> a < length (store (snd (createBranch d len ang sd w)))"
  using createBranch_refs [of d len ang sd w] by (auto simp add: refsOf_def)

lemma createBranch_distinct: "distinct (refsOf (fst (createBranch d len ang sd w)))"
proof (induction "maxDepth - d" arbitrary: d len ang sd w)
  case 0
  then show ?case by (simp add: createBranch_leaf refsOf_Branch)
next
  case (Suc k)
  then have d: "d < maxDepth" and k: "k = maxDepth - (d + 1)" by simp_all
  note ih = Suc.hyps(1) [OF k]
  define nb where "nb = newBranch d len ang sd w"
  define ra where "ra = createBranch (d + 1) (len * lenFactor d sd) (ang + spread sd + lean sd) (sd * 1.71 + 1) (snd nb)"
  define rb where "rb = createBranch (d + 1) (len * lenFactor d sd) (ang - spread sd + lean sd) (sd * 1.71 + 2) (snd ra)"
  define rc where "rc = createBranch (d + 1) (len * (lenFactor d sd * 0.9)) (ang + variance sd) (sd * 1.71 + 3) (snd rb)"
  define third where "third \<longleftrightarrow> d > 1 \<and> seededRandom (sd + 4) > 0.58"
  define L0 where "L0 = length (store w)"
  define L1 where "L1 = length (store (snd nb))"
  define L2 where "L2 = length (store (snd ra))"
  define L3 where "L3 = length (store (snd rb))"
  define L4 where "L4 = length (store (snd rc))"
  have l0: "L0 < L1"
    unfolding L0_def L1_def nb_def by (simp add: newBranch_store)
  have l1: "L1 < L2" unfolding L1_def L2_def ra_def by (rule createBranch_length)
  have l2: "L2 < L3" unfolding L2_def L3_def rb_def by (rule createBranch_length)
  have a: "set (refsOf (fst ra)) \<subseteq> {L1..<L2}"
    unfolding ra_def L1_def L2_def using createBranch_refsOf [of "d + 1" _ _ _ "snd nb"]
    by (auto simp add: ra_def)
  have b: "set (refsOf (fst rb)) \<subseteq> {L2..<L3}"
    unfolding rb_def L2_def L3_def using createBranch_refsOf [of "d + 1" _ _ _ "snd ra"]
    by (auto simp add: rb_def)
  have c: "set (refsOf (fst rc)) \<subseteq> {L3..<L4}"
    unfolding rc_def L3_def L4_def using createBranch_refsOf [of "d + 1" _ _ _ "snd rb"]
    by (auto simp add: rc_def)
  have da: "distinct (refsOf (fst ra))" unfolding ra_def by (rule ih)
  have db: "distinct (refsOf (fst rb))" unfolding rb_def by (rule ih)
  have dc: "distinct (refsOf (fst rc))" unfolding rc_def by (rule ih)
  have r: "ref (fst nb) = L0" by (simp add: nb_def L0_def)
  have eq: "fst (createBranch d len ang sd w) =
      (if third then Branch (fst nb) [fst ra, fst rb, fst rc] else Branch (fst nb) [fst ra, fst rb])"
    by (simp add: createBranch_inner [OF d] Let_def nb_def ra_def rb_def rc_def third_def)
  have i: "L0 \<notin> {L1..<L2}" "L0 \<notin> {L2..<L3}" "L0 \<notin> {L3..<L4}"
    "{L1..<L2} \<inter> {L2..<L3} = {}" "{L1..<L2} \<inter> {L3..<L4} = {}" "{L2..<L3} \<inter> {L3..<L4} = {}"
    using l0 l1 l2 by auto
  have x: "ref (fst nb) \<notin> set (refsOf (fst ra))" "ref (fst nb) \<notin> set (refsOf (fst rb))"
    "ref (fst nb) \<notin> set (refsOf (fst rc))"
    "set (refsOf (fst ra)) \<inter> set (refsOf (fst rb)) = {}"
    "set (refsOf (fst ra)) \<inter> set (refsOf (fst rc)) = {}"
    "set (refsOf (fst rb)) \<inter> set (refsOf (fst rc)) = {}"
    unfolding r using a b c i by blast+
  show ?case
    unfolding eq using da db dc x by (auto simp add: refsOf_Branch)
qed


lemma buildTree_refsOf:
  "\<forall>a \<in> set (refsOf (fst (buildTree w))). length (store w) \<le> a \<and> a < length (store (snd (buildTree w)))"
  using createBranch_refsOf [of 0 "min (width w) (height w) * 0.25" 0
      "fst (Math_random (w\<lparr>branchIdCounter := 0\<rparr>)) * 1000" "snd (Math_random (w\<lparr>branchIdCounter := 0\<rparr>))"]
  by (simp add: buildTree_def Let_def case_prod_beta Math_random_def)

lemma buildTree_distinct: "distinct (refsOf (fst (buildTree w)))"
  by (simp add: buildTree_def Let_def case_prod_beta createBranch_distinct)

lemma spawnSaplings_more [simp]:
  "tree (spawnSaplings w) = tree w"
  "branchSegments (spawnSaplings w) = branchSegments w"
  by (subst spawnSaplings_frame, simp)+

lemma stageSwitch_rebuild:
  assumes "lifeStage w = Rebirth" "saplings w \<noteq> []" "list_all (\<lambda>s. sap_growth s > 0.98) (saplings w)"
  shows "stageSwitch delta w =
     (snd (buildTree w))\<lparr>tree := Some (fst (buildTree w)), growth := 0.05, targetGrowth := 0.15,
        saplings := [], lifeStage := Sprout, stageTimer := 0\<rparr>"
  using assms by (simp add: stageSwitch_def setStage_def Let_def case_prod_beta)

lemma updateLifeStage_rebuild:
  assumes "lifeStage w = Rebirth" "saplings w \<noteq> []" "list_all (\<lambda>s. sap_growth s > 0.98) (saplings w)"
  shows "updateLifeStage delta w =
     (snd (buildTree w))\<lparr>tree := Some (fst (buildTree w)), growth := 0.05, targetGrowth := 0.15,
        saplings := [], lifeStage := Sprout, stageTimer := 0, regenCountdown := 0\<rparr>"
  by (simp add: updateLifeStage_def Let_def stageSwitch_rebuild [OF assms])

lemma refsValid_grown:
  assumes "refsValid w" "grown w w'" "tree w' = tree w" "branchSegments w' = branchSegments w"
  shows "refsValid w'"
  using assms(1,3,4) grown_length [OF assms(2)] unfolding refsValid_def
  by (metis less_le_trans)

lemma refsValid_rebuilt:
  assumes "refsValid w"
  shows "refsValid ((snd (buildTree w))\<lparr>tree := Some (fst (buildTree w))\<rparr>)"
proof -
  have l: "length (store w) \<le> length (store (snd (buildTree w)))"
    by (rule grown_length [OF buildTree_grown])
  have s: "\<forall>s \<in> set (branchSegments w). \<forall>a \<in> set (refsOf (seg_branch s)). a < length (store (snd (buildTree w)))"
    using assms l unfolding refsValid_def by (meson less_le_trans)
  show ?thesis
    unfolding refsValid_def using buildTree_refsOf [of w] s by simp
qed

lemma stageSwitch_refsValid:
  assumes "refsValid w"
  shows "refsValid (stageSwitch delta w)"
proof (cases "lifeStage w")
  case Rebirth
  define w1 where "w1 = (if saplings w = [] then spawnSaplings w else w)"
  have v: "refsValid w1"
    using assms by (simp add: w1_def refsValid_def)
  have k: "refsValid (v\<lparr>growth := g, targetGrowth := tg, saplings := ss\<rparr>) = refsValid v" for v g tg ss
    by (simp add: refsValid_def)
  have k2: "refsValid (setStage st v) = refsValid v" for v st
    by (simp add: refsValid_def setStage_def)
  have e: "stageSwitch delta w =
      (if list_all (\<lambda>s. sap_growth s > 0.98) (saplings w1)
       then setStage Sprout (((snd (buildTree w1))\<lparr>tree := Some (fst (buildTree w1))\<rparr>)
                \<lparr>growth := 0.05, targetGrowth := 0.15, saplings := []\<rparr>)
       else w1)"
    using Rebirth by (simp add: stageSwitch_def Let_def case_prod_beta w1_def)
  show ?thesis
    unfolding e using v refsValid_rebuilt [OF v] by (simp add: k k2)
qed (use assms in \<open>simp_all add: stageSwitch_def setStage_def Let_def Math_random_def refsValid_def\<close>)

lemma updateLifeStage_refsValid: "refsValid w \<Longrightarrow> refsValid (updateLifeStage delta w)"
  using stageSwitch_refsValid [of w delta]
  by (simp add: updateLifeStage_def Let_def refsValid_def)

lemma drawTree_segments:
  assumes "tree w = Some t"
  shows "walked time (set (nodes t)) (w\<lparr>branchSegments := []\<rparr>) (drawTree time w)"
  using assms drawBranch_walked [of time t "w\<lparr>branchSegments := []\<rparr>" 0 "width w / 2" "height w - 60"]
  by (simp add: drawTree_def)

lemma drawTree_refsValid:
  assumes "refsValid w"
  shows "refsValid (drawTree time w)"
proof (cases "tree w")
  case None
  then show ?thesis using assms by (simp add: drawTree_def)
next
  case (Some t)
  note k = drawTree_segments [OF Some, of time]
  have len: "length (store (drawTree time w)) = length (store w)"
    using k unfolding walked_def by simp
  have tr: "tree (drawTree time w) = Some t"
    using drawOnly_fields(6) [OF drawTree_drawOnly, of time w] Some by simp
  from k obtain ext where e: "branchSegments (drawTree time w) = ext"
    "\<forall>s \<in> set ext. seg_branch s \<in> set (nodes t)"
    unfolding walked_def by auto
  have v: "\<forall>a \<in> set (refsOf t). a < length (store w)"
    using assms Some unfolding refsValid_def by simp
  have "\<forall>s \<in> set ext. \<forall>a \<in> set (refsOf (seg_branch s)). a < length (store w)"
    using e(2) v refsOf_sub by blast
  then show ?thesis
    unfolding refsValid_def using v by (simp add: len tr e(1))
qed

lemma performSawCut_length [simp]: "length (store (performSawCut now w)) = length (store w)"
  using performSawCut_cases [of now w] by auto

lemma performSawCut_more [simp]:
  "tree (performSawCut now w) = tree w"
  "branchSegments (performSawCut now w) = branchSegments w"
  by (simp_all add: performSawCut_def Let_def Math_random_def split: option.splits)

lemma fire_refsValid:
  assumes "refsValid w"
  shows "refsValid (fire e w)"
proof (cases e)
  case (Frame time)
  have a: "refsValid (advance time w)"
    using assms by (simp add: refsValid_def advance_def Let_def Math_random_def case_prod_beta)
  have b: "refsValid (updateSaplings d v) = refsValid v" for d v
    by (simp add: refsValid_def updateSaplings_def)
  show ?thesis
    using Frame updateLifeStage_refsValid [OF a]
    by (simp add: loop_def Let_def drawTree_refsValid b)
next
  case (Resize wd ht)
  have "refsValid (w\<lparr>width := wd, height := ht\<rparr>)" using assms by (simp add: refsValid_def)
  from refsValid_rebuilt [OF this] show ?thesis
    using Resize by (simp add: resize_def case_prod_beta refsValid_def)
qed (use assms in \<open>simp_all add: refsValid_def water_def growthPulse_def pointerdown_def
       pointermove_def pointerup_def updatePointer_def Let_def Math_random_def\<close>)

lemma reachable_refsValid: "reachable w \<Longrightarrow> refsValid w"
proof (induction rule: reachable.induct)
  case (boot rnd t0 wd ht)
  have "refsValid \<lparr> branchIdCounter = 0, random = (\<lambda>i. rnd (Suc i)), store = [],
         width = wd, height = ht, tree = None, growth = 0.015, targetGrowth = 0.08,
         hydration = 0, lastTime = t0, deltaMs = 16, simulatedAge = 0, wind = 0,
         windTarget = 0, season = rnd 0 * pi * 2, lifeStage = Seed, stageTimer = 0,
         regenCountdown = 0, fruitsRipened = 0, branchSegments = [], saplings = [],
         sawState = \<lparr> active = False, saw_x = 0, saw_y = 0, lastCut = 0 \<rparr> \<rparr>"
    by (simp add: refsValid_def)
  from refsValid_rebuilt [OF this] show ?case
    by (simp add: boot_def resize_def case_prod_beta refsValid_def)
next
  case (fire w e)
  then show ?case by (simp add: fire_refsValid)
qed


lemma advance_more [simp]:
  "tree (advance time w) = tree w"
  "branchSegments (advance time w) = branchSegments w"
  by (simp_all add: advance_def Let_def Math_random_def case_prod_beta)

lemma advance_refsValid: "refsValid (advance time w) = refsValid w"
  by (simp add: refsValid_def)

text \<open>
  C7. In a state with \<open>lifeStage = rebirth\<close> in which every sapling's growth exceeds 0.98
  (and, as in every reachable state, there is a sapling and every address held is
  valid), the next frame sets \<open>tree\<close> to the result of a new \<open>buildTree()\<close> call, \<open>growth\<close>
  to 0.05, \<open>targetGrowth\<close> to 0.15, \<open>saplings\<close> to the empty list and the stage to
  \<open>sprout\<close>. The branches of the new tree are distinct objects allocated in this frame:
  none is a branch of the old tree or of an old segment, and after the frame every
  segment in \<open>branchSegments\<close> belongs to the new tree.
\<close>

theorem rebirth_rebuild:
  assumes inv: "stageInv w" and valid: "refsValid w"
    and st: "lifeStage w = Rebirth"
    and all: "list_all (\<lambda>s. sap_growth s > 0.98) (saplings w)"
  shows "tree (fire (Frame time) w) = Some (fst (buildTree (advance time w)))
     \<and> growth (fire (Frame time) w) = 0.05
     \<and> targetGrowth (fire (Frame time) w) = 0.15
     \<and> saplings (fire (Frame time) w) = []
     \<and> lifeStage (fire (Frame time) w) = Sprout
     \<and> stageTimer (fire (Frame time) w) = 0
     \<and> distinct (refsOf (fst (buildTree (advance time w))))
     \<and> (\<forall>a \<in> set (refsOf (fst (buildTree (advance time w)))).
           length (store w) \<le> a \<and> a < length (store (fire (Frame time) w)))
     \<and> (\<forall>t0. tree w = Some t0
           \<longrightarrow> set (refsOf (fst (buildTree (advance time w)))) \<inter> set (refsOf t0) = {})
     \<and> (\<forall>s \<in> set (branchSegments w).
           set (refsOf (fst (buildTree (advance time w)))) \<inter> set (refsOf (seg_branch s)) = {})
     \<and> (\<forall>s \<in> set (branchSegments (fire (Frame time) w)).
           seg_branch s \<in> set (nodes (fst (buildTree (advance time w)))))"
proof -
  define w8 where "w8 = advance time w"
  define t where "t = fst (buildTree w8)"
  define w9 where "w9 = updateLifeStage (deltaMs w8) w8"
  define w10 where "w10 = updateSaplings (deltaMs w9) w9"
  have ne: "saplings w \<noteq> []" using inv st by (simp add: stageInv_def)
  have h: "lifeStage w8 = Rebirth" "saplings w8 \<noteq> []" "list_all (\<lambda>s. sap_growth s > 0.98) (saplings w8)"
    using st ne all by (simp_all add: w8_def)
  have e9: "w9 = (snd (buildTree w8))\<lparr>tree := Some t, growth := 0.05, targetGrowth := 0.15,
        saplings := [], lifeStage := Sprout, stageTimer := 0, regenCountdown := 0\<rparr>"
    unfolding w9_def t_def by (rule updateLifeStage_rebuild [OF h])
  have f10: "tree w10 = Some t" "growth w10 = 0.05" "targetGrowth w10 = 0.15" "saplings w10 = []"
    "lifeStage w10 = Sprout" "stageTimer w10 = 0" "store w10 = store (snd (buildTree w8))"
    by (simp_all add: w10_def e9 updateSaplings_def)
  have l: "fire (Frame time) w = drawTree time w10"
    by (simp add: loop_def Let_def w10_def w9_def w8_def)
  note d = drawOnly_fields [OF drawTree_drawOnly, of time w10]
  note k = drawTree_segments [OF f10(1), of time]
  have len: "length (store (drawTree time w10)) = length (store (snd (buildTree w8)))"
    using k unfolding walked_def by (simp add: f10)
  have r: "\<forall>a \<in> set (refsOf t). length (store w) \<le> a \<and> a < length (store (snd (buildTree w8)))"
    using buildTree_refsOf [of w8] by (simp add: t_def w8_def)
  have old: "\<forall>t0. tree w = Some t0 \<longrightarrow> (\<forall>a \<in> set (refsOf t0). a < length (store w))"
    "\<forall>s \<in> set (branchSegments w). \<forall>a \<in> set (refsOf (seg_branch s)). a < length (store w)"
    using valid unfolding refsValid_def by blast+
  have x1: "\<forall>t0. tree w = Some t0 \<longrightarrow> set (refsOf t) \<inter> set (refsOf t0) = {}"
    using r old(1) by fastforce
  have x2: "\<forall>s \<in> set (branchSegments w). set (refsOf t) \<inter> set (refsOf (seg_branch s)) = {}"
    using r old(2) by fastforce
  from k obtain ext where "branchSegments (drawTree time w10) = ext"
    "\<forall>s \<in> set ext. seg_branch s \<in> set (nodes t)"
    unfolding walked_def by auto
  then have sg: "\<forall>s \<in> set (branchSegments (drawTree time w10)). seg_branch s \<in> set (nodes t)"
    by simp
  have dt: "distinct (refsOf t)" unfolding t_def by (rule buildTree_distinct)
  show ?thesis
    unfolding l w8_def [symmetric] t_def [symmetric]
    using d(1,2,3,4,5,6) f10 len r x1 x2 sg dt by simp
qed

theorem rebirth_rebuild_witness:
  "stageInv rebirthWorld \<and> refsValid rebirthWorld \<and> lifeStage rebirthWorld = Rebirth
   \<and> list_all (\<lambda>s. sap_growth s > 0.98) (saplings rebirthWorld)
   \<and> tree (fire (Frame 16) rebirthWorld) = Some (fst (buildTree (advance 16 rebirthWorld)))
   \<and> growth (fire (Frame 16) rebirthWorld) = 0.05
   \<and> targetGrowth (fire (Frame 16) rebirthWorld) = 0.15
   \<and> saplings (fire (Frame 16) rebirthWorld) = []
   \<and> lifeStage (fire (Frame 16) rebirthWorld) = Sprout"
proof -
  have a: "stageInv rebirthWorld" "refsValid rebirthWorld" "lifeStage rebirthWorld = Rebirth"
    "list_all (\<lambda>s. sap_growth s > 0.98) (saplings rebirthWorld)"
    by (simp_all add: stageInv_def refsValid_def rebirthWorld_def world0_def)
  from rebirth_rebuild [OF a, of 16] a show ?thesis by blast
qed

section \<open>Properties of the fruit counter\<close>


lemma lifetime_length [simp]: "length (lifetime f ws) = length ws"
  by (induction ws arbitrary: f) simp_all








lemma fruitBonus_floor:
  assumes "0 \<le> n"
  shows "0 \<le> fruitBonus n" and "fruitBonus n * 3 \<le> n"
proof -
  have "\<lfloor>real_of_int n / 6\<rfloor> = n div 6"
    using floor_divide_of_int_eq [of n 6, where ?'a = real] by simp
  then have b: "fruitBonus n = min 3 (n div 6)" by (simp add: fruitBonus_def)
  show "0 \<le> fruitBonus n" unfolding b using assms by simp
  show "fruitBonus n * 3 \<le> n" unfolding b using assms by (simp add: min_def) presburger
qed








section \<open>Invariants of the reachable states\<close>

text \<open>
  Every function only takes numbers from the front of the random stream, so the stream
  of a reachable state is a suffix of the one the program started with.
\<close>

lemma drained_same: "random w' = random w \<Longrightarrow> drained w w'"
  unfolding drained_def by (rule exI [of _ 0]) simp

lemma drained_refl [simp]: "drained w w"
  by (simp add: drained_same)

lemma drained_trans: "drained w w' \<Longrightarrow> drained w' w'' \<Longrightarrow> drained w w''"
  unfolding drained_def
proof -
  assume "\<exists>k. \<forall>i. random w' i = random w (i + k)" "\<exists>k. \<forall>i. random w'' i = random w' (i + k)"
  then obtain k l where "\<forall>i. random w' i = random w (i + k)" "\<forall>i. random w'' i = random w' (i + l)"
    by blast
  then have "\<forall>i. random w'' i = random w (i + (l + k))" by (simp add: add.assoc)
  then show "\<exists>k. \<forall>i. random w'' i = random w (i + k)" by blast
qed

lemma drained_randomOk: "drained w w' \<Longrightarrow> randomOk w \<Longrightarrow> randomOk w'"
  unfolding drained_def randomOk_def by auto

lemma Math_random_drained: "drained w (snd (Math_random w))"
  unfolding drained_def Math_random_def by (rule exI [of _ 1]) simp

lemma drained_tail: "drained w v \<Longrightarrow> random v' = (\<lambda>i. random v (Suc i)) \<Longrightarrow> drained w v'"
  by (rule drained_trans [of w v v']) (auto simp add: drained_def intro: exI [of _ 1])

lemma newBranch_drained: "drained w (snd (newBranch d len ang sd w))"
  unfolding drained_def newBranch_def Math_random_def Let_def by (rule exI [of _ 1]) simp

lemma createBranch_drained: "drained w (snd (createBranch d len ang sd w))"
proof (induction "maxDepth - d" arbitrary: d len ang sd w)
  case 0
  then show ?case by (simp add: createBranch_leaf newBranch_drained)
next
  case (Suc k)
  then have d: "d < maxDepth" and k: "k = maxDepth - (d + 1)" by simp_all
  note ih = Suc.hyps(1) [OF k]
  define nb where "nb = newBranch d len ang sd w"
  define ra where "ra = createBranch (d + 1) (len * lenFactor d sd) (ang + spread sd + lean sd) (sd * 1.71 + 1) (snd nb)"
  define rb where "rb = createBranch (d + 1) (len * lenFactor d sd) (ang - spread sd + lean sd) (sd * 1.71 + 2) (snd ra)"
  define rc where "rc = createBranch (d + 1) (len * (lenFactor d sd * 0.9)) (ang + variance sd) (sd * 1.71 + 3) (snd rb)"
  define third where "third \<longleftrightarrow> d > 1 \<and> seededRandom (sd + 4) > 0.58"
  have a: "drained w (snd ra)"
    unfolding ra_def nb_def by (rule drained_trans [OF newBranch_drained ih])
  have b: "drained w (snd rb)"
    unfolding rb_def by (rule drained_trans [OF a ih])
  have c: "drained w (snd rc)"
    unfolding rc_def by (rule drained_trans [OF b ih])
  have eq: "snd (createBranch d len ang sd w) = (if third then snd rc else snd rb)"
    by (simp only: createBranch_inner [OF d] Let_def nb_def ra_def rb_def rc_def third_def
          if_distrib [of snd] snd_conv)
  show ?case
    unfolding eq using b c by simp
qed

lemma buildTree_drained: "drained w (snd (buildTree w))"
proof -
  have "drained w (snd (Math_random (w\<lparr>branchIdCounter := 0\<rparr>)))"
    unfolding drained_def Math_random_def by (rule exI [of _ 1]) simp
  then have "drained w (snd (createBranch 0 (min (width w) (height w) * 0.25) 0
       (fst (Math_random (w\<lparr>branchIdCounter := 0\<rparr>)) * 1000) (snd (Math_random (w\<lparr>branchIdCounter := 0\<rparr>)))))"
    by (rule drained_trans [OF _ createBranch_drained])
  then show ?thesis
    by (simp add: buildTree_def Let_def case_prod_beta)
qed

lemma newSapling_drained: "drained w (snd (newSapling w))"
  unfolding drained_def newSapling_def Math_random_def Let_def
  by (rule exI [of _ 4]) (simp add: case_prod_beta eval_nat_numeral)

lemma makeSaplings_drained: "drained w (snd (makeSaplings n w))"
proof (induction n arbitrary: w)
  case 0
  show ?case by simp
next
  case (Suc n)
  show ?case
    unfolding makeSaplings_Suc snd_conv
    by (rule drained_trans [OF newSapling_drained Suc])
qed

lemma spawnSaplings_drained: "drained w (spawnSaplings w)"
proof -
  define w2 where "w2 = w\<lparr>random := (\<lambda>i. random w (Suc i)),
             fruitsRipened := max 0 (fruitsRipened w - fruitBonus (fruitsRipened w) * 3)\<rparr>"
  define n where "n = nat (saplingCount (random w 0) (fruitBonus (fruitsRipened w)))"
  have a: "drained w w2"
    unfolding drained_def w2_def by (rule exI [of _ 1]) simp
  have b: "drained w (snd (makeSaplings n w2))"
    by (rule drained_trans [OF a makeSaplings_drained])
  have "random (spawnSaplings w) = random (snd (makeSaplings n w2))"
    by (simp add: spawnSaplings_def Let_def Math_random_def case_prod_beta w2_def n_def)
  then show ?thesis
    using b unfolding drained_def by simp
qed

lemma stageSwitch_drained: "drained w (stageSwitch delta w)"
proof (cases "lifeStage w")
  case Fruit
  then show ?thesis
    by (auto simp add: stageSwitch_def setStage_def Math_random_def drained_def intro: exI [of _ 0] exI [of _ 1])
next
  case SeedFall
  have "drained w (spawnSaplings (w\<lparr>regenCountdown := regenCountdown w + delta\<rparr>))"
    using spawnSaplings_drained [of "w\<lparr>regenCountdown := regenCountdown w + delta\<rparr>"]
    by (simp add: drained_def)
  then show ?thesis
    using SeedFall
    by (auto simp add: stageSwitch_def setStage_def Let_def drained_def intro: exI [of _ 0])
next
  case Rebirth
  define w1 where "w1 = (if saplings w = [] then spawnSaplings w else w)"
  have a: "drained w w1" by (simp add: w1_def spawnSaplings_drained)
  have b: "drained w (snd (buildTree w1))" by (rule drained_trans [OF a buildTree_drained])
  have "random (stageSwitch delta w) = random w1 \<or> random (stageSwitch delta w) = random (snd (buildTree w1))"
    using Rebirth by (simp add: stageSwitch_def setStage_def Let_def case_prod_beta w1_def)
  then show ?thesis
    using a b unfolding drained_def by auto
qed (simp_all add: stageSwitch_def setStage_def drained_same)

lemma updateLifeStage_drained: "drained w (updateLifeStage delta w)"
  using stageSwitch_drained [of w delta] by (simp add: updateLifeStage_def Let_def drained_def)


lemma ripenFruits_random [simp]: "random (snd (ripenFruits fs w)) = random w"
proof (induction fs arbitrary: w)
  case Nil
  show ?case by simp
next
  case (Cons f fs)
  have "random (snd (ripenFruit f w)) = random w" by (simp add: ripenFruit_def Let_def)
  then show ?case by (simp only: ripenFruits_Cons snd_conv Cons)
qed

lemma newFruit_drained: "drained w (snd (newFruit sd idx w))"
  unfolding drained_def newFruit_def Math_random_def by (rule exI [of _ 1]) (simp add: case_prod_beta)

lemma makeFruits_drained: "drained w (snd (makeFruits sd idx n w))"
proof (induction n arbitrary: w idx)
  case 0
  show ?case by simp
next
  case (Suc n)
  show ?case
    unfolding makeFruits_Suc snd_conv
    by (rule drained_trans [OF newFruit_drained Suc])
qed

lemma drawFruit_drained: "drained w (drawFruit p w)"
proof -
  define r where "r = (case fruits (store w ! ref p) of
                 None \<Rightarrow> makeFruits (seed p) 0 (if seededRandom (seed p + 40) > 0.65 then 2 else 1) w
               | Some fs \<Rightarrow> (fs, w))"
  have a: "drained w (snd r)"
    unfolding r_def by (cases "fruits (store w ! ref p)") (simp_all add: makeFruits_drained)
  have "random (drawFruit p w) = random w \<or> random (drawFruit p w) = random (snd r)"
    by (simp add: drawFruit_def case_prod_beta r_def [symmetric])
  then show ?thesis
  proof
    assume "random (drawFruit p w) = random w"
    then show ?thesis unfolding drained_def by (intro exI [of _ 0]) simp
  next
    assume "random (drawFruit p w) = random (snd r)"
    then show ?thesis using a unfolding drained_def by simp
  qed
qed

lemma fold_drained:
  assumes "\<And>c v. c \<in> set cs \<Longrightarrow> drained v (f c v)"
  shows "drained w (fold f cs w)"
  using assms
proof (induction cs arbitrary: w)
  case Nil
  show ?case by simp
next
  case (Cons c cs)
  have "drained w (f c w)" using Cons.prems by simp
  moreover have "drained (f c w) (fold f cs (f c w))" using Cons by simp
  ultimately show ?case by (simp only: fold_simps) (rule drained_trans)
qed

lemma drawBranch_drained: "drained w (drawBranch b time pa sx sy w)"
proof (induction b arbitrary: pa sx sy w)
  case (Branch p cs)
  show ?case
  proof (cases "progress (depth p) (growth w) \<le> 0
     \<or> (pruned (store w ! ref p) \<and> time \<le> regrowAt (store w ! ref p))")
    case True
    then show ?thesis by (simp only: drawBranch_hidden drained_refl)
  next
    case False
    then have v: "0 < progress (depth p) (growth w)"
      and u: "\<not> (pruned (store w ! ref p) \<and> time \<le> regrowAt (store w ! ref p))"
      by simp_all
    define w2 where "w2 = shown p cs time pa sx sy w"
    have a: "drained w w2"
      unfolding w2_def shown_def by (rule drained_same) simp
    have f: "drained w (drawFruit p w2)"
      by (rule drained_trans [OF a drawFruit_drained])
    have c: "drained w (fold (\<lambda>child. drawBranch child time ang ex ey) cs w2)" for ang ex ey
      by (rule drained_trans [OF a fold_drained]) (rule Branch)
    show ?thesis
      using a f c by (simp add: drawBranch_shown [OF v u] Let_def w2_def [symmetric])
  qed
qed

lemma drawTree_drained: "drained w (drawTree time w)"
proof (cases "tree w")
  case None
  then show ?thesis by (simp add: drawTree_def)
next
  case (Some t)
  have "drained w (w\<lparr>branchSegments := []\<rparr>)" by (rule drained_same) simp
  then have "drained w (drawBranch t time 0 (width w / 2) (height w - 60) (w\<lparr>branchSegments := []\<rparr>))"
    by (rule drained_trans [OF _ drawBranch_drained])
  then show ?thesis using Some by (simp add: drawTree_def)
qed

lemma performSawCut_drained: "drained w (performSawCut now w)"
  using performSawCut_cases [of now w]
  by (auto simp add: drained_def intro: exI [of _ 0] exI [of _ 1])

lemma advance_drained: "drained w (advance time w)"
proof -
  have "random (advance time w) = (\<lambda>i. random w (Suc i))
        \<or> random (advance time w) = (\<lambda>i. random w (Suc (Suc i)))"
    by (simp add: advance_def Let_def Math_random_def case_prod_beta)
  then show ?thesis
    unfolding drained_def by (auto intro: exI [of _ 1] exI [of _ 2])
qed

lemma loop_drained: "drained w (loop time w)"
proof -
  define w8 where "w8 = advance time w"
  define w9 where "w9 = updateLifeStage (deltaMs w8) w8"
  define w10 where "w10 = updateSaplings (deltaMs w9) w9"
  have a: "drained w w8" unfolding w8_def by (rule advance_drained)
  have b: "drained w w9" unfolding w9_def by (rule drained_trans [OF a updateLifeStage_drained])
  have "drained w9 w10" unfolding w10_def by (rule drained_same) (simp add: updateSaplings_def)
  then have c: "drained w w10" by (rule drained_trans [OF b])
  have "drained w (drawTree time w10)" by (rule drained_trans [OF c drawTree_drained])
  then show ?thesis by (simp only: loop_def Let_def w8_def w9_def w10_def)
qed

lemma resize_drained: "drained w (resize wd ht w)"
proof -
  have "drained w (w\<lparr>width := wd, height := ht\<rparr>)" by (rule drained_same) simp
  then have "drained w (snd (buildTree (w\<lparr>width := wd, height := ht\<rparr>)))"
    by (rule drained_trans [OF _ buildTree_drained])
  then show ?thesis by (simp add: resize_def case_prod_beta drained_def)
qed

lemma fire_drained: "drained w (fire e w)"
proof (cases e)
  case (Frame time)
  then show ?thesis by (simp add: loop_drained)
next
  case Water
  then show ?thesis
    by (simp add: water_def Let_def Math_random_def drained_def) (rule exI [of _ 1], simp)
next
  case Pulse
  then show ?thesis
    by (simp add: growthPulse_def Let_def Math_random_def drained_def) (rule exI [of _ 3], simp add: eval_nat_numeral)
next
  case (PointerDown button point now)
  have "drained w (updatePointer point (w\<lparr>sawState := (sawState w)\<lparr>active := True\<rparr>\<rparr>))"
    by (rule drained_same) (simp add: updatePointer_def)
  from drained_trans [OF this performSawCut_drained] PointerDown show ?thesis
    by (simp add: pointerdown_def)
next
  case (PointerMove point now)
  have "drained w (updatePointer point w)"
    by (rule drained_same) (simp add: updatePointer_def)
  from this drained_trans [OF this performSawCut_drained] PointerMove show ?thesis
    by (simp add: pointermove_def Let_def)
next
  case PointerUp
  then show ?thesis by (simp add: pointerup_def drained_same)
next
  case (Resize wd ht)
  then show ?thesis by (simp add: resize_drained)
qed

lemma reachable_randomOk: "reachable w \<Longrightarrow> randomOk w"
proof (induction rule: reachable.induct)
  case (boot rnd t0 wd ht)
  define w0 where "w0 = \<lparr> branchIdCounter = 0, random = (\<lambda>i. rnd (Suc i)), store = [],
         width = 0, height = 0, tree = None, growth = 0.015, targetGrowth = 0.08,
         hydration = 0, lastTime = t0, deltaMs = 16, simulatedAge = 0, wind = 0,
         windTarget = 0, season = rnd 0 * pi * 2, lifeStage = Seed, stageTimer = 0,
         regenCountdown = 0, fruitsRipened = 0, branchSegments = [], saplings = [],
         sawState = \<lparr> active = False, saw_x = 0, saw_y = 0, lastCut = 0 \<rparr> \<rparr>"
  have "randomOk w0" using boot by (simp add: randomOk_def w0_def)
  then have "randomOk (resize wd ht w0)" by (rule drained_randomOk [OF resize_drained])
  then show ?case
    unfolding boot_def w0_def [symmetric] by (simp add: randomOk_def)
next
  case (fire w e)
  then show ?case using drained_randomOk [OF fire_drained] by blast
qed

text \<open>
  \<open>growth\<close> and \<open>targetGrowth\<close> stay in \<open>[0, 1.08]\<close>: every assignment is a clamp, a
  constant of the rebirth, or the decay of the decline, which only lowers the target.
\<close>

lemma clamp_range: "0 \<le> clamp v 0 1.08 \<and> clamp v 0 1.08 \<le> 1.08"
  by (simp add: clamp_def)

lemma growthOk_same:
  "growth w' = growth w \<Longrightarrow> targetGrowth w' = targetGrowth w \<Longrightarrow> growthOk w \<Longrightarrow> growthOk w'"
  by (simp add: growthOk_def)

lemma advance_growthOk:
  assumes "growthOk w"
  shows "growthOk (advance time w)"
proof -
  have g: "growth (advance time w) = easeGrowth (frameDelta time (lastTime w)) (targetGrowth w) (growth w)"
    by (simp add: advance_def Let_def Math_random_def case_prod_beta)
  have "targetGrowth (advance time w) = targetGrowth w
        \<or> (\<exists>v. targetGrowth (advance time w) = clamp v 0 1.08)"
    by (simp add: advance_def Let_def Math_random_def case_prod_beta) blast
  then have t: "0 \<le> targetGrowth (advance time w) \<and> targetGrowth (advance time w) \<le> 1.08"
    using assms clamp_range by (auto simp add: growthOk_def)
  have "0 \<le> growth (advance time w) \<and> growth (advance time w) \<le> 1.08"
    unfolding g easeGrowth_def Let_def by (rule clamp_range)
  then show ?thesis using t by (simp add: growthOk_def)
qed

lemma setStage_growthOk [simp]: "growthOk (setStage s w) = growthOk w"
  by (simp add: setStage_def growthOk_def)

lemma stageSwitch_growthOk:
  assumes "growthOk w"
  shows "growthOk (stageSwitch delta w)"
proof (cases "lifeStage w")
  case Fruit
  then show ?thesis
    using assms by (simp add: stageSwitch_def Math_random_def) (simp add: growthOk_def)
next
  case SeedFall
  then show ?thesis
    using assms by (simp add: stageSwitch_def Let_def) (simp add: growthOk_def)
next
  case Rebirth
  then show ?thesis
    using assms by (simp add: stageSwitch_def Let_def case_prod_beta) (simp add: growthOk_def)
qed (use assms in \<open>simp_all add: stageSwitch_def\<close>)

lemma updateLifeStage_growthOk:
  assumes "growthOk w" "0 \<le> delta"
  shows "growthOk (updateLifeStage delta w)"
proof -
  have a: "growthOk (stageSwitch delta w)" using assms(1) by (rule stageSwitch_growthOk)
  define tg where "tg = targetGrowth (stageSwitch delta w)"
  have "tg - delta * 0.00012 \<le> tg" using assms(2) by simp
  moreover have "0 \<le> tg" "tg \<le> 1.08" using a by (simp_all add: growthOk_def tg_def)
  ultimately have "0 \<le> max 0.24 (tg - delta * 0.00012) \<and> max 0.24 (tg - delta * 0.00012) \<le> 1.08"
    by (simp add: max_def)
  then show ?thesis
    using a by (simp add: updateLifeStage_def Let_def growthOk_def tg_def)
qed

lemma loop_growthOk:
  assumes "growthOk w"
  shows "growthOk (loop time w)"
proof -
  define w8 where "w8 = advance time w"
  define w9 where "w9 = updateLifeStage (deltaMs w8) w8"
  define w10 where "w10 = updateSaplings (deltaMs w9) w9"
  have a: "growthOk w8" unfolding w8_def by (rule advance_growthOk [OF assms])
  have "0 \<le> deltaMs w8" using frameDelta_range [of time "lastTime w"] by (simp add: w8_def)
  then have b: "growthOk w9" unfolding w9_def by (rule updateLifeStage_growthOk [OF a])
  have c: "growthOk w10" using b by (simp add: w10_def updateSaplings_def growthOk_def)
  have "growthOk (drawTree time w10)"
    using c drawOnly_fields(3,4) [OF drawTree_drawOnly, of time w10] by (simp add: growthOk_def)
  then show ?thesis by (simp only: loop_def Let_def w8_def w9_def w10_def)
qed

lemma performSawCut_growth [simp]:
  "growth (performSawCut now w) = growth w"
  "targetGrowth (performSawCut now w) = targetGrowth w"
  by (simp_all add: performSawCut_def Let_def Math_random_def split: option.splits)

lemma fire_growthOk:
  assumes "growthOk w"
  shows "growthOk (fire e w)"
proof (cases e)
  case (Frame time)
  then show ?thesis using assms by (simp add: loop_growthOk)
next
  case Water
  then show ?thesis
    using clamp_range [of "targetGrowth w + 0.1"] assms
    by (simp add: water_def Let_def Math_random_def growthOk_def)
next
  case Pulse
  then show ?thesis
    using clamp_range assms
    by (simp add: growthPulse_def Let_def Math_random_def growthOk_def)
next
  case (PointerDown button point now)
  then show ?thesis using assms by (simp add: pointerdown_def updatePointer_def growthOk_def)
next
  case (PointerMove point now)
  then show ?thesis using assms by (simp add: pointermove_def Let_def updatePointer_def growthOk_def)
next
  case PointerUp
  then show ?thesis using assms by (simp add: pointerup_def growthOk_def)
next
  case (Resize wd ht)
  then show ?thesis using assms by (simp add: resize_def case_prod_beta growthOk_def)
qed

lemma reachable_growthOk: "reachable w \<Longrightarrow> growthOk w"
proof (induction rule: reachable.induct)
  case (boot rnd t0 wd ht)
  show ?case by (simp add: boot_def resize_def case_prod_beta growthOk_def)
next
  case (fire w e)
  then show ?case by (simp add: fire_growthOk)
qed

end
